theory Spec2Isabelle
  imports Main "HOL-Library.Finite_Map" "HOL-Library.Word"
begin

section \<open>Bytes, strings and formatting\<close>

text \<open>
  A Go \<^verbatim>\<open>[]byte\<close> is a list of 8-bit words. A Go \<^verbatim>\<open>string\<close> is a sequence of
  bytes as well, and so is an Isabelle \<^typ>\<open>string\<close>; the conversion \<^verbatim>\<open>[]byte(s)\<close>
  keeps every byte.
\<close>

type_synonym byte = "8 word"
type_synonym bytes = "byte list"

definition bytes_of_string :: "string \<Rightarrow> bytes" where
  "bytes_of_string s = map of_char s"

text \<open>
  \<^verbatim>\<open>%d\<close> of \<^verbatim>\<open>fmt.Sprintf\<close> on a non-negative integer: its decimal digits, most
  significant first, no padding.
\<close>

fun decimal :: "nat \<Rightarrow> string" where
  "decimal n =
     (if n < 10 then [''0123456789'' ! n]
      else decimal (n div 10) @ [''0123456789'' ! (n mod 10)])"

text \<open>
  The rendering can be read back, so two numbers with the same digits are equal. The
  name search of the schema loader terminates because of this.
\<close>

definition digit_val :: "char \<Rightarrow> nat" where
  "digit_val c = of_char c - 48"

definition undecimal :: "string \<Rightarrow> nat" where
  "undecimal s = foldl (\<lambda>a c. 10 * a + digit_val c) 0 s"

declare decimal.simps [simp del]

lemma digit_val_digit: "d < 10 \<Longrightarrow> digit_val (''0123456789'' ! d) = d"
proof -
  assume "d < 10"
  then have "d \<in> {0,1,2,3,4,5,6,7,8,9}" by auto
  then show ?thesis by (auto simp: digit_val_def)
qed

lemma undecimal_decimal: "undecimal (decimal n) = n"
proof (induction n rule: decimal.induct)
  case (1 n)
  show ?case
  proof (cases "n < 10")
    case True
    then show ?thesis
      by (subst decimal.simps) (simp add: undecimal_def digit_val_digit)
  next
    case False
    with 1 have "undecimal (decimal (n div 10)) = n div 10" by simp
    with False show ?thesis
      by (subst decimal.simps) (simp add: undecimal_def digit_val_digit)
  qed
qed

lemma decimal_inj: "decimal a = decimal b \<Longrightarrow> a = b"
  by (metis undecimal_decimal)

lemma decimal_nonempty: "decimal n \<noteq> []"
  by (subst decimal.simps) simp

text \<open>\<^verbatim>\<open>strings.Join(elems, sep)\<close>.\<close>

fun Join :: "string list \<Rightarrow> string \<Rightarrow> string" where
  "Join [] sep = []"
| "Join [x] sep = x"
| "Join (x # y # ys) sep = x @ sep @ Join (y # ys) sep"

section \<open>Types and arguments\<close>

text \<open>
  Modelled from the spec: the file that declares \<^verbatim>\<open>Type\<close> and its method
  \<^verbatim>\<open>String()\<close> is not among the sources. The spec (section 3) gives the closed
  variant below, and (sections 3 and 4.4) the canonical string: elementary types by
  their name and size (\<^verbatim>\<open>uint256\<close>, \<^verbatim>\<open>bytes32\<close>, \<^verbatim>\<open>address\<close>), a tuple as its
  component types, joined by commas, in parentheses, an array as its element type
  followed by a bracket suffix (\<^verbatim>\<open>[5]\<close> for a fixed array, \<^verbatim>\<open>[]\<close> for a dynamic
  one).
\<close>

datatype abi_type =
    UnsignedInt nat
  | SignedInt nat
  | Address
  | Bool
  | FixedBytes nat
  | DynamicBytes
  | String
  | Tuple "(string \<times> abi_type) list"
  | FixedArray abi_type nat
  | DynamicArray abi_type

text \<open>
  Modelled from the spec: \<^verbatim>\<open>Type.String()\<close>, the canonical string of a type (sections
  3 and 4.4), which \<^verbatim>\<open>Sig\<close> and \<^verbatim>\<open>String\<close> call.
\<close>

fun type_string :: "abi_type \<Rightarrow> string" where
  "type_string (UnsignedInt b) = ''uint'' @ decimal b"
| "type_string (SignedInt b) = ''int'' @ decimal b"
| "type_string Address = ''address''"
| "type_string Bool = ''bool''"
| "type_string (FixedBytes n) = ''bytes'' @ decimal n"
| "type_string DynamicBytes = ''bytes''"
| "type_string String = ''string''"
| "type_string (Tuple cs) = ''('' @ Join (map (\<lambda>c. type_string (snd c)) cs) '','' @ '')''"
| "type_string (FixedArray t n) = type_string t @ ''['' @ decimal n @ '']''"
| "type_string (DynamicArray t) = type_string t @ ''[]''"

text \<open>\<^verbatim>\<open>Argument\<close>: a named, typed parameter; \<^verbatim>\<open>Arguments\<close> is a slice of them.\<close>

record Argument =
  Name :: string
  Type :: abi_type
  Indexed :: bool

type_synonym Arguments = "Argument list"

section \<open>Mccmod: signature, rendering and selector\<close>

record Mccmod =
  Name :: string
  Const :: bool
  Inputs :: Arguments
  Outputs :: Arguments

text \<open>
  \<^verbatim>\<open>Sig\<close>: the loop fills \<^verbatim>\<open>types[i]\<close> with the canonical string of the i-th
  input's type; the result is \<^verbatim>\<open>Sprintf("%v(%v)", Name, Join(types, ","))\<close>.
\<close>

definition Sig :: "Mccmod \<Rightarrow> string" where
  "Sig mccmod =
     (let types = map (\<lambda>input. type_string (Argument.Type input)) (Mccmod.Inputs mccmod)
      in Mccmod.Name mccmod @ ''('' @ Join types '','' @ '')'')"

text \<open>
  \<^verbatim>\<open>String\<close>: every input is rendered as type, space, name; an output as its type,
  followed by a space and its name only when the name is not empty.
\<close>

definition String_Mccmod :: "Mccmod \<Rightarrow> string" where
  "String_Mccmod mccmod =
     (let inputs = map (\<lambda>input. type_string (Argument.Type input) @ '' '' @ Argument.Name input)
                     (Mccmod.Inputs mccmod);
          outputs = map (\<lambda>output. type_string (Argument.Type output) @
                          (if length (Argument.Name output) > 0 then '' '' @ Argument.Name output else []))
                     (Mccmod.Outputs mccmod);
          constant = (if Mccmod.Const mccmod then ''constant '' else [])
      in ''function '' @ Mccmod.Name mccmod @ ''('' @ Join inputs '', '' @ '') '' @ constant @
         ''returns('' @ Join outputs '', '' @ '')'')"

text \<open>
  \<^verbatim>\<open>Id\<close>: \<^verbatim>\<open>crypto.Keccak256([]byte(mccmod.Sig()))[:4]\<close>. The hash function lives
  outside the sources and is a parameter here; it returns 32 bytes, so the slice is its
  first four bytes.
\<close>

definition Id_Mccmod :: "(bytes \<Rightarrow> bytes) \<Rightarrow> Mccmod \<Rightarrow> bytes" where
  "Id_Mccmod Keccak256 mccmod = take 4 (Keccak256 (bytes_of_string (Sig mccmod)))"

section \<open>The ABI\<close>

record Event =
  Name :: string
  Anonymous :: bool
  Inputs :: Arguments

record ABI =
  Constructor :: Mccmod
  Mccmods :: "(string, Mccmod) fmap"
  Events :: "(string, Event) fmap"

text \<open>
  The errors the ABI builds with \<^verbatim>\<open>fmt.Errorf\<close>, one constructor per message, and
  the errors of the argument codec, which the ABI returns as it got them.
\<close>

datatype 'e error =
    ErrMccmodNotFound string
  | ErrEmptyOutput
  | ErrImproperlyFormatted
  | ErrImproperlyFormattedBytes bytes
  | ErrNotLocated
  | ErrDataTooShort nat
  | ErrNoMccmodWithId bytes
  | ErrArguments 'e

text \<open>
  \<^verbatim>\<open>Pack\<close>. \<^verbatim>\<open>Arguments.Pack\<close> is not among the sources: it is the parameter
  \<open>argsPack\<close>, from an argument list and the values to an error or the encoded bytes.
\<close>

definition Pack ::
  "(bytes \<Rightarrow> bytes) \<Rightarrow> (Arguments \<Rightarrow> 'v list \<Rightarrow> 'e + bytes) \<Rightarrow> ABI \<Rightarrow> string \<Rightarrow> 'v list
     \<Rightarrow> 'e error + bytes" where
  "Pack Keccak256 argsPack abi name args =
     (if name = [] then
        (case argsPack (Mccmod.Inputs (Constructor abi)) args of
           Inl err \<Rightarrow> Inl (ErrArguments err)
         | Inr arguments \<Rightarrow> Inr arguments)
      else
        (case fmlookup (Mccmods abi) name of
           None \<Rightarrow> Inl (ErrMccmodNotFound name)
         | Some mccmod \<Rightarrow>
             (case argsPack (Mccmod.Inputs mccmod) args of
                Inl err \<Rightarrow> Inl (ErrArguments err)
              | Inr arguments \<Rightarrow> Inr (Id_Mccmod Keccak256 mccmod @ arguments))))"

text \<open>
  \<^verbatim>\<open>Unpack\<close> and \<^verbatim>\<open>UnpackIntoMap\<close>. The destination \<open>v\<close> is written through a
  pointer (or is a map) in Go; here the decoder takes it and returns it updated.
  \<^verbatim>\<open>Arguments.Unpack\<close> and \<^verbatim>\<open>Arguments.UnpackIntoMap\<close> are not among the sources:
  they are the parameters \<open>argsUnpack\<close> and \<open>argsUnpackIntoMap\<close>.
\<close>

definition Unpack ::
  "(Arguments \<Rightarrow> 'd \<Rightarrow> bytes \<Rightarrow> 'e + 'd) \<Rightarrow> ABI \<Rightarrow> 'd \<Rightarrow> string \<Rightarrow> bytes \<Rightarrow> 'e error + 'd" where
  "Unpack argsUnpack abi v name data =
     (if length data = 0 then Inl ErrEmptyOutput
      else case fmlookup (Mccmods abi) name of
        Some mccmod \<Rightarrow>
          (if length data mod 32 \<noteq> 0 then Inl (ErrImproperlyFormattedBytes data)
           else (case argsUnpack (Mccmod.Outputs mccmod) v data of
                   Inl err \<Rightarrow> Inl (ErrArguments err) | Inr v' \<Rightarrow> Inr v'))
      | None \<Rightarrow>
          (case fmlookup (Events abi) name of
             Some event \<Rightarrow>
               (case argsUnpack (Event.Inputs event) v data of
                  Inl err \<Rightarrow> Inl (ErrArguments err) | Inr v' \<Rightarrow> Inr v')
           | None \<Rightarrow> Inl ErrNotLocated))"

definition UnpackIntoMap ::
  "(Arguments \<Rightarrow> (string \<rightharpoonup> 'a) \<Rightarrow> bytes \<Rightarrow> 'e + (string \<rightharpoonup> 'a)) \<Rightarrow> ABI \<Rightarrow> (string \<rightharpoonup> 'a)
     \<Rightarrow> string \<Rightarrow> bytes \<Rightarrow> 'e error + (string \<rightharpoonup> 'a)" where
  "UnpackIntoMap argsUnpackIntoMap abi v name data =
     (if length data = 0 then Inl ErrEmptyOutput
      else case fmlookup (Mccmods abi) name of
        Some mccmod \<Rightarrow>
          (if length data mod 32 \<noteq> 0 then Inl ErrImproperlyFormatted
           else (case argsUnpackIntoMap (Mccmod.Outputs mccmod) v data of
                   Inl err \<Rightarrow> Inl (ErrArguments err) | Inr v' \<Rightarrow> Inr v'))
      | None \<Rightarrow>
          (case fmlookup (Events abi) name of
             Some event \<Rightarrow>
               (case argsUnpackIntoMap (Event.Inputs event) v data of
                  Inl err \<Rightarrow> Inl (ErrArguments err) | Inr v' \<Rightarrow> Inr v')
           | None \<Rightarrow> Inl ErrNotLocated))"

section \<open>Loading a schema document\<close>

text \<open>
  A map has finitely many keys, and the names built from one base and the indices are all
  different: only finitely many of them are keys.
\<close>

lemma finite_suffixed_keys: "finite {j. fmlookup m (base @ decimal j) \<noteq> None}"
proof -
  have "inj (\<lambda>j. base @ decimal j)"
    by (auto simp: inj_def dest: decimal_inj)
  then have "finite ((\<lambda>j. base @ decimal j) -` fmdom' m)"
    by (intro finite_vimageI) simp_all
  moreover have "{j. fmlookup m (base @ decimal j) \<noteq> None} = (\<lambda>j. base @ decimal j) -` fmdom' m"
    by (auto simp: fmlookup_dom'_iff [symmetric])
  ultimately show ?thesis by simp
qed

text \<open>
  The name search of \<^verbatim>\<open>UnmarshalJSON\<close>:
  \<^verbatim>\<open>for idx := 0; ok; idx++ { name = Sprintf("%s%d", field.Name, idx); _, ok = m[name] }\<close>.
  The loop state is \<open>name\<close>, \<open>ok\<close> and \<open>idx\<close>. \<open>idx\<close> is a Go \<^verbatim>\<open>int\<close>; it
  stays below the number of keys of the map, far from the overflow.
\<close>

function disambiguate :: "(string, 'a) fmap \<Rightarrow> string \<Rightarrow> string \<Rightarrow> bool \<Rightarrow> nat \<Rightarrow> string" where
  "disambiguate m fieldName name ok idx =
     (if ok then
        (let name' = fieldName @ decimal idx;
             ok' = (fmlookup m name' \<noteq> None)
         in disambiguate m fieldName name' ok' (idx + 1))
      else name)"
  by pat_completeness auto

termination disambiguate
proof (relation "measure (\<lambda>(m, fieldName, name, ok, idx).
         if ok then Suc (card {j. idx \<le> j \<and> fmlookup m (fieldName @ decimal j) \<noteq> None}) else 0)")
  show "wf (measure (\<lambda>(m :: (string, 'a) fmap, fieldName, name :: string, ok, idx).
         if ok then Suc (card {j. idx \<le> j \<and> fmlookup m (fieldName @ decimal j) \<noteq> None}) else 0))"
    by simp
next
  fix m :: "(string, 'a) fmap" and fieldName name :: string and ok :: bool and idx :: nat
    and x xa
  assume ok: "ok" and x: "x = fieldName @ decimal idx" and xa: "xa = (fmlookup m x \<noteq> None)"
  let ?S = "\<lambda>i. {j. i \<le> j \<and> fmlookup m (fieldName @ decimal j) \<noteq> None}"
  have fin: "finite (?S idx)"
    using finite_suffixed_keys [of m fieldName] by (auto intro: finite_subset)
  have "xa \<Longrightarrow> card (?S (idx + 1)) < card (?S idx)"
  proof -
    assume xa
    then have "idx \<in> ?S idx" "idx \<notin> ?S (idx + 1)" using x xa by auto
    moreover have "?S (idx + 1) \<subseteq> ?S idx" by auto
    ultimately have "?S (idx + 1) \<subset> ?S idx" by blast
    then show ?thesis using fin by (rule psubset_card_mono [rotated])
  qed
  then show "((m, fieldName, x, xa, idx + 1), m, fieldName, name, ok, idx)
       \<in> measure (\<lambda>(m, fieldName, name, ok, idx).
         if ok then Suc (card {j. idx \<le> j \<and> fmlookup m (fieldName @ decimal j) \<noteq> None}) else 0)"
    using ok by simp
qed

declare disambiguate.simps [simp del]

text \<open>
  The anonymous struct that \<^verbatim>\<open>json.Unmarshal\<close> fills for every entry of the document.
  The document is taken as the list of these entries, in document order, every type
  string already parsed into its \<^typ>\<open>abi_type\<close>; the error return of
  \<^verbatim>\<open>json.Unmarshal\<close> is outside the model.
\<close>

record field =
  Type :: string
  Name :: string
  Constant :: bool
  Anonymous :: bool
  Inputs :: Arguments
  Outputs :: Arguments

text \<open>
  One round of the loop over the entries: the \<^verbatim>\<open>switch\<close> on \<^verbatim>\<open>field.Type\<close>. An entry
  of any other type is skipped.
\<close>

definition UnmarshalJSON_field :: "ABI \<Rightarrow> field \<Rightarrow> ABI" where
  "UnmarshalJSON_field abi field =
     (if field.Type field = ''constructor'' then
        abi\<lparr>Constructor := \<lparr>Mccmod.Name = [], Const = False, Inputs = field.Inputs field, Outputs = []\<rparr>\<rparr>
      else if field.Type field = ''function'' \<or> field.Type field = [] then
        (let name = disambiguate (Mccmods abi) (field.Name field) (field.Name field)
                      (fmlookup (Mccmods abi) (field.Name field) \<noteq> None) 0
         in abi\<lparr>Mccmods := fmupd name
               \<lparr>Mccmod.Name = name, Const = Constant field, Inputs = field.Inputs field,
                Outputs = field.Outputs field\<rparr> (Mccmods abi)\<rparr>)
      else if field.Type field = ''event'' then
        (let name = disambiguate (Events abi) (field.Name field) (field.Name field)
                      (fmlookup (Events abi) (field.Name field) \<noteq> None) 0
         in abi\<lparr>Events := fmupd name
               \<lparr>Event.Name = name, Anonymous = field.Anonymous field, Inputs = field.Inputs field\<rparr>
               (Events abi)\<rparr>)
      else abi)"

text \<open>
  \<^verbatim>\<open>UnmarshalJSON\<close> has a pointer receiver: both maps are made anew, the constructor
  is overwritten only by a constructor entry. \<^verbatim>\<open>JSON\<close> starts from the zero value.
\<close>

definition UnmarshalJSON :: "ABI \<Rightarrow> field list \<Rightarrow> ABI" where
  "UnmarshalJSON abi document =
     foldl UnmarshalJSON_field (abi\<lparr>Mccmods := fmempty, Events := fmempty\<rparr>) document"

definition JSON :: "field list \<Rightarrow> ABI" where
  "JSON document =
     UnmarshalJSON \<lparr>Constructor = \<lparr>Mccmod.Name = [], Const = False, Inputs = [], Outputs = []\<rparr>,
                    Mccmods = fmempty, Events = fmempty\<rparr> document"

section \<open>Lookup by selector\<close>

text \<open>
  \<^verbatim>\<open>MccmodById\<close> ranges over the map. Go visits every key once, in an order it does
  not specify: the order is the parameter \<open>order\<close>, a list of keys.
\<close>

fun MccmodById_range :: "(bytes \<Rightarrow> bytes) \<Rightarrow> (string, Mccmod) fmap \<Rightarrow> string list \<Rightarrow> bytes \<Rightarrow> Mccmod option" where
  "MccmodById_range Keccak256 m [] id4 = None"
| "MccmodById_range Keccak256 m (k # ks) id4 =
     (case fmlookup m k of
        None \<Rightarrow> MccmodById_range Keccak256 m ks id4
      | Some mccmod \<Rightarrow>
          if Id_Mccmod Keccak256 mccmod = id4 then Some mccmod
          else MccmodById_range Keccak256 m ks id4)"

definition MccmodById ::
  "(bytes \<Rightarrow> bytes) \<Rightarrow> string list \<Rightarrow> ABI \<Rightarrow> bytes \<Rightarrow> 'e error + Mccmod" where
  "MccmodById Keccak256 order abi sigdata =
     (if length sigdata < 4 then Inl (ErrDataTooShort (length sigdata))
      else case MccmodById_range Keccak256 (Mccmods abi) order (take 4 sigdata) of
        Some mccmod \<Rightarrow> Inr mccmod
      | None \<Rightarrow> Inl (ErrNoMccmodWithId (take 4 sigdata)))"

section \<open>The schema of the tests\<close>

text \<open>
  \<^verbatim>\<open>mccmoddata\<close>, the document of the tests of \<^verbatim>\<open>Sig\<close> and \<^verbatim>\<open>String\<close>, after
  parsing: \<^verbatim>\<open>tuple\<close> with its components is a \<^const>\<open>Tuple\<close>, the suffixes \<^verbatim>\<open>[5]\<close>
  and \<^verbatim>\<open>[]\<close> wrap it from the inside out. The keys \<^verbatim>\<open>payable\<close> and
  \<^verbatim>\<open>stateMutability\<close> have no field in the struct and are dropped.
\<close>

definition mccmoddata :: "field list" where
  "mccmoddata =
     [\<lparr>field.Type = ''function'', Name = ''balance'', Constant = True, Anonymous = False,
       Inputs = [], Outputs = []\<rparr>,
      \<lparr>field.Type = ''function'', Name = ''send'', Constant = False, Anonymous = False,
       Inputs = [\<lparr>Argument.Name = ''amount'', Type = UnsignedInt 256, Indexed = False\<rparr>],
       Outputs = []\<rparr>,
      \<lparr>field.Type = ''function'', Name = ''transfer'', Constant = False, Anonymous = False,
       Inputs = [\<lparr>Argument.Name = ''from'', Type = Address, Indexed = False\<rparr>,
                 \<lparr>Argument.Name = ''to'', Type = Address, Indexed = False\<rparr>,
                 \<lparr>Argument.Name = ''value'', Type = UnsignedInt 256, Indexed = False\<rparr>],
       Outputs = [\<lparr>Argument.Name = ''success'', Type = Bool, Indexed = False\<rparr>]\<rparr>,
      \<lparr>field.Type = ''function'', Name = ''tuple'', Constant = False, Anonymous = False,
       Inputs = [\<lparr>Argument.Name = ''a'',
                  Type = Tuple [(''x'', UnsignedInt 256), (''y'', UnsignedInt 256)],
                  Indexed = False\<rparr>],
       Outputs = []\<rparr>,
      \<lparr>field.Type = ''function'', Name = ''tupleSlice'', Constant = False, Anonymous = False,
       Inputs = [\<lparr>Argument.Name = ''a'',
                  Type = DynamicArray (Tuple [(''x'', UnsignedInt 256), (''y'', UnsignedInt 256)]),
                  Indexed = False\<rparr>],
       Outputs = []\<rparr>,
      \<lparr>field.Type = ''function'', Name = ''tupleArray'', Constant = False, Anonymous = False,
       Inputs = [\<lparr>Argument.Name = ''a'',
                  Type = FixedArray (Tuple [(''x'', UnsignedInt 256), (''y'', UnsignedInt 256)]) 5,
                  Indexed = False\<rparr>],
       Outputs = []\<rparr>,
      \<lparr>field.Type = ''function'', Name = ''complexTuple'', Constant = False, Anonymous = False,
       Inputs = [\<lparr>Argument.Name = ''a'',
                  Type = DynamicArray
                    (FixedArray (Tuple [(''x'', UnsignedInt 256), (''y'', UnsignedInt 256)]) 5),
                  Indexed = False\<rparr>],
       Outputs = []\<rparr>]"

text \<open>
  The same schema as section 8 of the spec writes it: only the first entry carries a
  type, and the array of five tuples comes before the slice of tuples.
\<close>

definition schema_section8 :: "field list" where
  "schema_section8 =
     [\<lparr>field.Type = ''function'', Name = ''balance'', Constant = True, Anonymous = False,
       Inputs = [], Outputs = []\<rparr>,
      \<lparr>field.Type = [], Name = ''send'', Constant = False, Anonymous = False,
       Inputs = [\<lparr>Argument.Name = ''amount'', Type = UnsignedInt 256, Indexed = False\<rparr>],
       Outputs = []\<rparr>,
      \<lparr>field.Type = [], Name = ''transfer'', Constant = False, Anonymous = False,
       Inputs = [\<lparr>Argument.Name = ''from'', Type = Address, Indexed = False\<rparr>,
                 \<lparr>Argument.Name = ''to'', Type = Address, Indexed = False\<rparr>,
                 \<lparr>Argument.Name = ''value'', Type = UnsignedInt 256, Indexed = False\<rparr>],
       Outputs = [\<lparr>Argument.Name = ''success'', Type = Bool, Indexed = False\<rparr>]\<rparr>,
      \<lparr>field.Type = [], Name = ''tuple'', Constant = False, Anonymous = False,
       Inputs = [\<lparr>Argument.Name = ''a'',
                  Type = Tuple [(''x'', UnsignedInt 256), (''y'', UnsignedInt 256)],
                  Indexed = False\<rparr>],
       Outputs = []\<rparr>,
      \<lparr>field.Type = [], Name = ''tupleArray'', Constant = False, Anonymous = False,
       Inputs = [\<lparr>Argument.Name = ''a'',
                  Type = FixedArray (Tuple [(''x'', UnsignedInt 256), (''y'', UnsignedInt 256)]) 5,
                  Indexed = False\<rparr>],
       Outputs = []\<rparr>,
      \<lparr>field.Type = [], Name = ''tupleSlice'', Constant = False, Anonymous = False,
       Inputs = [\<lparr>Argument.Name = ''a'',
                  Type = DynamicArray (Tuple [(''x'', UnsignedInt 256), (''y'', UnsignedInt 256)]),
                  Indexed = False\<rparr>],
       Outputs = []\<rparr>,
      \<lparr>field.Type = [], Name = ''complexTuple'', Constant = False, Anonymous = False,
       Inputs = [\<lparr>Argument.Name = ''a'',
                  Type = DynamicArray
                    (FixedArray (Tuple [(''x'', UnsignedInt 256), (''y'', UnsignedInt 256)]) 5),
                  Indexed = False\<rparr>],
       Outputs = []\<rparr>]"

section \<open>Declared names and their keys\<close>

text \<open>
  The key of the \<open>c\<close>-th entry (counting from 0) declared under a name, as the claim
  describes it: the bare name first, then the name followed by 0, 1, 2, ...
\<close>

definition occurrence_key :: "string \<Rightarrow> nat \<Rightarrow> string" where
  "occurrence_key name c = (case c of 0 \<Rightarrow> name | Suc k \<Rightarrow> name @ decimal k)"

definition keys_of :: "string list \<Rightarrow> string set" where
  "keys_of ns = {occurrence_key n c | n c. c < count_list ns n}"

text \<open>
  The kinds of entries the loader tells apart, the names declared by the entries of a
  kind, and the number of earlier entries of the same kind and name.
\<close>

definition is_function :: "field \<Rightarrow> bool" where
  "is_function f = (field.Type f = ''function'' \<or> field.Type f = [])"

definition is_event :: "field \<Rightarrow> bool" where
  "is_event f = (field.Type f = ''event'')"

definition names_of :: "(field \<Rightarrow> bool) \<Rightarrow> field list \<Rightarrow> string list" where
  "names_of kind document = map field.Name (filter kind document)"

definition earlier :: "(field \<Rightarrow> bool) \<Rightarrow> field list \<Rightarrow> nat \<Rightarrow> nat" where
  "earlier kind document i =
     count_list (names_of kind (take i document)) (field.Name (document ! i))"

text \<open>
  The keys that numbering the occurrences of every declared name gives the entries of a
  kind, in document order.
\<close>

definition predicted_keys :: "(field \<Rightarrow> bool) \<Rightarrow> field list \<Rightarrow> string list" where
  "predicted_keys kind document =
     map (\<lambda>i. occurrence_key (field.Name (document ! i)) (earlier kind document i))
       (filter (\<lambda>i. kind (document ! i)) [0 ..< length document])"

section \<open>The argument encoder and decoder\<close>

text \<open>
  Modelled from the spec: \<^verbatim>\<open>Arguments.Pack\<close> and \<^verbatim>\<open>Arguments.Unpack\<close> and the
  per-type packing and unpacking they call are not among the sources. This section
  follows sections 3, 4.2 and 4.3 of the spec.
\<close>

subsection \<open>Values and typing\<close>

text \<open>
  Modelled from the spec: the values the encoder takes (Go passes them as
  \<^verbatim>\<open>interface{}\<close>; their packing is not among the sources). Section 4.2 lists them:
  integers, booleans, 20-byte addresses, byte sequences, strings, and lists of values
  for tuples and arrays.
\<close>

datatype abi_value =
    IntV int
  | BoolV bool
  | AddressV bytes
  | BytesV bytes
  | StringV string
  | TupleV "abi_value list"
  | ListV "abi_value list"

text \<open>
  Modelled from the spec: the side conditions of section 3 on the sizes a type may
  carry (the type parser that enforces them is not among the sources).
\<close>

fun valid_type :: "abi_type \<Rightarrow> bool" where
  "valid_type (UnsignedInt b) = (b mod 8 = 0 \<and> 8 \<le> b \<and> b \<le> 256)"
| "valid_type (SignedInt b) = (b mod 8 = 0 \<and> 8 \<le> b \<and> b \<le> 256)"
| "valid_type (FixedBytes n) = (1 \<le> n \<and> n \<le> 32)"
| "valid_type (Tuple cs) = list_all (\<lambda>c. valid_type (snd c)) cs"
| "valid_type (FixedArray t n) = valid_type t"
| "valid_type (DynamicArray t) = valid_type t"
| "valid_type _ = True"

text \<open>
  Modelled from the spec: the split into static and dynamic types (section 3). A type
  is dynamic iff it is \<^verbatim>\<open>DynamicBytes\<close>, \<^verbatim>\<open>String\<close>, a \<^verbatim>\<open>DynamicArray\<close>, or a
  tuple or fixed array that contains a dynamic member.
\<close>

fun is_dynamic :: "abi_type \<Rightarrow> bool" where
  "is_dynamic DynamicBytes = True"
| "is_dynamic String = True"
| "is_dynamic (DynamicArray t) = True"
| "is_dynamic (Tuple cs) = list_ex (\<lambda>c. is_dynamic (snd c)) cs"
| "is_dynamic (FixedArray t n) = (0 < n \<and> is_dynamic t)"
| "is_dynamic _ = False"

text \<open>
  Modelled from the spec: the bytes a static type occupies (section 3): one 32-byte
  word per scalar, the concatenation of the members' words for a static tuple or fixed
  array. In a head, a dynamic type occupies one slot, for its offset (section 4.2).
\<close>

fun static_size :: "abi_type \<Rightarrow> nat" where
  "static_size (Tuple cs) = sum_list (map (\<lambda>c. static_size (snd c)) cs)"
| "static_size (FixedArray t n) = n * static_size t"
| "static_size _ = 32"

definition head_size :: "abi_type \<Rightarrow> nat" where
  "head_size t = (if is_dynamic t then 32 else static_size t)"

definition heads_size :: "abi_type list \<Rightarrow> nat" where
  "heads_size ts = sum_list (map head_size ts)"

text \<open>
  Modelled from the spec: the type check of the encoder (section 4.2, inputs and
  errors). A value fits a type: an integer within the declared width, an address of 20
  bytes, fixed bytes of the declared length, a fixed array of the declared length,
  every member fitting its type.
\<close>

fun well_typed :: "abi_type \<Rightarrow> abi_value \<Rightarrow> bool" where
  "well_typed (UnsignedInt b) (IntV i) = (0 \<le> i \<and> i < 2 ^ b)"
| "well_typed (SignedInt b) (IntV i) = (- (2 ^ (b - 1)) \<le> i \<and> i < 2 ^ (b - 1))"
| "well_typed Bool (BoolV b) = True"
| "well_typed Address (AddressV a) = (length a = 20)"
| "well_typed (FixedBytes n) (BytesV bs) = (length bs = n)"
| "well_typed DynamicBytes (BytesV bs) = True"
| "well_typed String (StringV s) = True"
| "well_typed (Tuple cs) (TupleV vs) = list_all2 well_typed (map snd cs) vs"
| "well_typed (FixedArray t n) (ListV vs) = (length vs = n \<and> list_all (well_typed t) vs)"
| "well_typed (DynamicArray t) (ListV vs) = list_all (well_typed t) vs"
| "well_typed _ _ = False"

subsection \<open>Words\<close>

text \<open>
  Modelled from the spec: the 32-byte big-endian word of section 4.2. \<open>be_bytes k n\<close>
  is the \<open>k\<close> low bytes of \<open>n\<close>, most significant first; \<open>be_nat\<close> is the number a
  byte sequence spells.
\<close>

fun be_bytes :: "nat \<Rightarrow> nat \<Rightarrow> bytes" where
  "be_bytes 0 n = []"
| "be_bytes (Suc k) n = be_bytes k (n div 256) @ [of_nat (n mod 256)]"

definition be_nat :: "bytes \<Rightarrow> nat" where
  "be_nat bs = foldl (\<lambda>a b. a * 256 + unat b) 0 bs"

definition word32 :: "nat \<Rightarrow> bytes" where
  "word32 n = be_bytes 32 n"

text \<open>
  Modelled from the spec: the padding of bytes and strings (section 4.2), trailing zeros
  up to the next multiple of 32 bytes.
\<close>

definition pad32 :: "bytes \<Rightarrow> bytes" where
  "pad32 bs = bs @ replicate ((32 - length bs mod 32) mod 32) 0"

subsection \<open>The encoder\<close>

text \<open>Modelled from the spec: the two errors of the codec (section 7).\<close>

datatype codec_error = EncodingError | DecodingError

text \<open>
  Modelled from the spec: the encoding algorithm and the per-type rules of section 4.2
  (the packing code is not among the sources). An integer is the word of its two's
  complement, a boolean the word of 0 or 1, an address is right-aligned, fixed bytes
  are left-aligned, bytes and strings are a length word and the padded content, a
  dynamic array is a length word and its elements; tuples and arrays encode their
  members as a sequence of their own.
  \<open>enc_args hl head tail ts vs\<close> runs over the arguments in order with the two
  buffers: a static value is appended to the head; for a dynamic value the head gets
  the offset, the total head length \<open>hl\<close> plus the current length of the tail, and the
  tail gets the value's own encoding. The result is the head followed by the tail.
\<close>

fun enc :: "abi_type \<Rightarrow> abi_value \<Rightarrow> bytes"
  and enc_args :: "nat \<Rightarrow> bytes \<Rightarrow> bytes \<Rightarrow> abi_type list \<Rightarrow> abi_value list \<Rightarrow> bytes" where
  "enc (UnsignedInt b) (IntV i) = word32 (nat (i mod 2 ^ 256))"
| "enc (SignedInt b) (IntV i) = word32 (nat (i mod 2 ^ 256))"
| "enc Bool (BoolV b) = word32 (if b then 1 else 0)"
| "enc Address (AddressV a) = replicate 12 0 @ a"
| "enc (FixedBytes n) (BytesV bs) = bs @ replicate (32 - n) 0"
| "enc DynamicBytes (BytesV bs) = word32 (length bs) @ pad32 bs"
| "enc String (StringV s) = word32 (length s) @ pad32 (bytes_of_string s)"
| "enc (Tuple cs) (TupleV vs) = enc_args (heads_size (map snd cs)) [] [] (map snd cs) vs"
| "enc (FixedArray t n) (ListV vs) = enc_args (n * head_size t) [] [] (replicate n t) vs"
| "enc (DynamicArray t) (ListV vs) =
     word32 (length vs) @ enc_args (length vs * head_size t) [] [] (replicate (length vs) t) vs"
| "enc _ _ = []"
| "enc_args hl head tail (t # ts) (v # vs) =
     (if is_dynamic t
      then enc_args hl (head @ word32 (hl + length tail)) (tail @ enc t v) ts vs
      else enc_args hl (head @ enc t v) tail ts vs)"
| "enc_args hl head tail _ _ = head @ tail"

text \<open>
  Modelled from the spec: \<^verbatim>\<open>Arguments.Pack\<close> (section 4.2). The count and the shapes
  are checked before any byte is written.
\<close>

definition Arguments_Pack :: "Arguments \<Rightarrow> abi_value list \<Rightarrow> codec_error + bytes" where
  "Arguments_Pack arguments values =
     (let types = map Argument.Type arguments in
      if length values \<noteq> length arguments then Inl EncodingError
      else if \<not> list_all2 well_typed types values then Inl EncodingError
      else Inr (enc_args (heads_size types) [] [] types values))"

subsection \<open>The decoder\<close>

text \<open>
  Modelled from the spec: reading a head slot or a length word (section 4.3). A 32-byte
  word at a position of the buffer; a position outside the buffer is an error.
\<close>

definition read_word :: "bytes \<Rightarrow> nat \<Rightarrow> codec_error + nat" where
  "read_word data at =
     (if at + 32 \<le> length data then Inr (be_nat (take 32 (drop at data)))
      else Inl DecodingError)"

fun max_size :: "abi_type list \<Rightarrow> nat" where
  "max_size [] = 0"
| "max_size (t # ts) = max (size t) (max_size ts)"

lemma max_size_replicate: "max_size (replicate n t) \<le> size t"
  by (induction n) auto

lemma max_size_components:
  "max_size (map snd cs) < Suc (size_list (size_prod (\<lambda>_. 0) size) cs)"
proof -
  have "max_size (map snd cs) \<le> size_list (size_prod (\<lambda>_. 0) size) cs"
    by (induction cs) auto
  then show ?thesis by simp
qed

text \<open>
  Modelled from the spec: the decoding algorithm of section 4.3 (the unpacking code is
  not among the sources).
  \<open>dec t data at\<close> decodes a value of type \<open>t\<close> whose encoding starts at \<open>at\<close>.
  \<open>dec_args ts data base pos\<close> reads the head slots of the arguments \<open>ts\<close> from
  \<open>pos\<close> on: a static value is decoded in place, and the position advances past the
  slots it occupies; for a dynamic value the slot is an offset, and the value is decoded
  at \<open>base\<close> plus the offset. The spec calls the origin \<^verbatim>\<open>tail_start\<close>; the offset
  the encoder writes is the length of the tail plus the total length of the head, so
  the origin that finds the value is the start of the head of this sequence, and that
  is \<open>base\<close>. A length word is read first for bytes, strings and dynamic arrays, and
  must fit the buffer. The spec does not say how a word other than 0 or 1 decodes as a
  boolean; here every word but 0 is true.
\<close>

function dec :: "abi_type \<Rightarrow> bytes \<Rightarrow> nat \<Rightarrow> codec_error + abi_value"
  and dec_args :: "abi_type list \<Rightarrow> bytes \<Rightarrow> nat \<Rightarrow> nat \<Rightarrow> codec_error + abi_value list" where
  "dec (UnsignedInt b) data at =
     (case read_word data at of Inl e \<Rightarrow> Inl e | Inr n \<Rightarrow> Inr (IntV (int n)))"
| "dec (SignedInt b) data at =
     (case read_word data at of Inl e \<Rightarrow> Inl e
      | Inr n \<Rightarrow> Inr (IntV (if n < 2 ^ 255 then int n else int n - 2 ^ 256)))"
| "dec Bool data at =
     (case read_word data at of Inl e \<Rightarrow> Inl e | Inr n \<Rightarrow> Inr (BoolV (n \<noteq> 0)))"
| "dec Address data at =
     (if at + 32 \<le> length data then Inr (AddressV (take 20 (drop (at + 12) data)))
      else Inl DecodingError)"
| "dec (FixedBytes n) data at =
     (if at + 32 \<le> length data then Inr (BytesV (take n (drop at data)))
      else Inl DecodingError)"
| "dec DynamicBytes data at =
     (case read_word data at of Inl e \<Rightarrow> Inl e
      | Inr len \<Rightarrow>
          if at + 32 + len \<le> length data then Inr (BytesV (take len (drop (at + 32) data)))
          else Inl DecodingError)"
| "dec String data at =
     (case read_word data at of Inl e \<Rightarrow> Inl e
      | Inr len \<Rightarrow>
          if at + 32 + len \<le> length data
          then Inr (StringV (map (\<lambda>b. char_of (unat b)) (take len (drop (at + 32) data))))
          else Inl DecodingError)"
| "dec (Tuple cs) data at =
     (case dec_args (map snd cs) data at at of Inl e \<Rightarrow> Inl e | Inr vs \<Rightarrow> Inr (TupleV vs))"
| "dec (FixedArray t n) data at =
     (case dec_args (replicate n t) data at at of Inl e \<Rightarrow> Inl e | Inr vs \<Rightarrow> Inr (ListV vs))"
| "dec (DynamicArray t) data at =
     (case read_word data at of Inl e \<Rightarrow> Inl e
      | Inr len \<Rightarrow>
          if at + 32 + len * head_size t \<le> length data
          then (case dec_args (replicate len t) data (at + 32) (at + 32) of
                  Inl e \<Rightarrow> Inl e | Inr vs \<Rightarrow> Inr (ListV vs))
          else Inl DecodingError)"
| "dec_args [] data base pos = Inr []"
| "dec_args (t # ts) data base pos =
     (if is_dynamic t then
        (case read_word data pos of Inl e \<Rightarrow> Inl e
         | Inr off \<Rightarrow>
             (case dec t data (base + off) of Inl e \<Rightarrow> Inl e
              | Inr v \<Rightarrow>
                  (case dec_args ts data base (pos + 32) of Inl e \<Rightarrow> Inl e
                   | Inr vs \<Rightarrow> Inr (v # vs))))
      else
        (case dec t data pos of Inl e \<Rightarrow> Inl e
         | Inr v \<Rightarrow>
             (case dec_args ts data base (pos + static_size t) of Inl e \<Rightarrow> Inl e
              | Inr vs \<Rightarrow> Inr (v # vs))))"
  by pat_completeness auto

termination dec
proof (relation "inv_image (less_than <*lex*> less_than)
    (\<lambda>x. case x of Inl (t, data, at) \<Rightarrow> (size t, 0)
                 | Inr (ts, data, base, pos) \<Rightarrow> (max_size ts, Suc (length ts)))")
  show "wf (inv_image (less_than <*lex*> less_than)
    (\<lambda>x. case x of Inl (t :: abi_type, data :: bytes, at :: nat) \<Rightarrow> (size t, 0 :: nat)
                 | Inr (ts, data :: bytes, base :: nat, pos :: nat) \<Rightarrow> (max_size ts, Suc (length ts))))"
    by auto
qed (auto simp: max_size_components max_size_replicate le_imp_less_Suc max_def)

text \<open>
  Modelled from the spec: \<^verbatim>\<open>Arguments.Unpack\<close> (section 4.3). Empty input, and input
  whose length is not a multiple of 32, is refused before any decoding.
\<close>

definition Arguments_Unpack :: "Arguments \<Rightarrow> bytes \<Rightarrow> codec_error + abi_value list" where
  "Arguments_Unpack arguments data =
     (if length data = 0 \<or> length data mod 32 \<noteq> 0 then Inl DecodingError
      else dec_args (map Argument.Type arguments) data 0 0)"

text \<open>
  Modelled from the spec: \<^verbatim>\<open>Arguments.UnpackIntoMap\<close> (section 4.3), the decoder
  into a mapping keyed by the declared names of the arguments. It decodes as
  \<^verbatim>\<open>Arguments.Unpack\<close> does, with the same refusal of empty input and of input whose
  length is not a multiple of 32, and stores every value under the name of its
  argument; an argument with an empty name is not addressable and is left out.
\<close>

definition Arguments_UnpackIntoMap ::
  "Arguments \<Rightarrow> (string \<rightharpoonup> abi_value) \<Rightarrow> bytes \<Rightarrow> codec_error + (string \<rightharpoonup> abi_value)" where
  "Arguments_UnpackIntoMap arguments v data =
     (case Arguments_Unpack arguments data of
        Inl e \<Rightarrow> Inl e
      | Inr vals \<Rightarrow>
          Inr (foldl (\<lambda>m (a, x). if Argument.Name a = [] then m else m(Argument.Name a \<mapsto> x))
                 v (zip arguments vals)))"

subsection \<open>The head and the tail of a sequence\<close>

text \<open>
  The head and the tail that \<open>enc_args\<close> builds, each as a function of the arguments:
  \<open>off\<close> is the offset the next dynamic value gets. \<open>sized\<close> holds of a value in which
  every list is shorter than \<open>2 ^ 256\<close>, so that its length fits a length word (a Go
  slice is shorter than \<open>2 ^ 63\<close>).
\<close>

fun enc_heads :: "nat \<Rightarrow> abi_type list \<Rightarrow> abi_value list \<Rightarrow> bytes" where
  "enc_heads off (t # ts) (v # vs) =
     (if is_dynamic t then word32 off @ enc_heads (off + length (enc t v)) ts vs
      else enc t v @ enc_heads off ts vs)"
| "enc_heads off _ _ = []"

fun enc_tails :: "abi_type list \<Rightarrow> abi_value list \<Rightarrow> bytes" where
  "enc_tails (t # ts) (v # vs) =
     (if is_dynamic t then enc t v @ enc_tails ts vs else enc_tails ts vs)"
| "enc_tails _ _ = []"

fun sized :: "abi_value \<Rightarrow> bool" where
  "sized (ListV vs) = (length vs < 2 ^ 256 \<and> list_all sized vs)"
| "sized (TupleV vs) = list_all sized vs"
| "sized _ = True"

section \<open>Evaluation\<close>

lemmas load_simps =
  JSON_def UnmarshalJSON_def UnmarshalJSON_field_def disambiguate.simps decimal.simps Let_def

section \<open>Unpacking: guards and name resolution\<close>

text \<open>
  C2: \<^verbatim>\<open>Unpack\<close> and \<^verbatim>\<open>UnpackIntoMap\<close> with the decoders of section 4.3 of the spec.
  For every registry, every name that is a key of the functions or of the events, and
  every data that is empty or whose length is not a multiple of 32, both return a
  decoding error: the empty-output error on empty data; otherwise the error of the
  length check of the ABI for a function, and the decoder's \<^const>\<open>DecodingError\<close> for
  a name that is only an event (the ABI has no length check of its own in that branch,
  and the decoder makes it). The check comes before any structural decoding: the
  decoders return \<^const>\<open>DecodingError\<close> on such data whatever the arguments are, and
  the results do not depend on the arguments of the function or event.
\<close>

theorem Unpack_length_guard:
  assumes "fmlookup (Mccmods abi) name \<noteq> None \<or> fmlookup (Events abi) name \<noteq> None"
    and "length data = 0 \<or> length data mod 32 \<noteq> 0"
  shows "Unpack (\<lambda>arguments v data. Arguments_Unpack arguments data) abi v name data =
           (if length data = 0 then Inl ErrEmptyOutput
            else if fmlookup (Mccmods abi) name \<noteq> None then Inl (ErrImproperlyFormattedBytes data)
            else Inl (ErrArguments DecodingError)) \<and>
         UnpackIntoMap Arguments_UnpackIntoMap abi w name data =
           (if length data = 0 then Inl ErrEmptyOutput
            else if fmlookup (Mccmods abi) name \<noteq> None then Inl ErrImproperlyFormatted
            else Inl (ErrArguments DecodingError)) \<and>
         Arguments_Unpack arguments data = Inl DecodingError \<and>
         Arguments_UnpackIntoMap arguments w data = Inl DecodingError"
proof -
  from assms(2) have guard: "Arguments_Unpack args data = Inl DecodingError"
      "Arguments_UnpackIntoMap args m data = Inl DecodingError" for args m
    by (simp_all add: Arguments_Unpack_def Arguments_UnpackIntoMap_def)
  show ?thesis
  proof (cases "fmlookup (Mccmods abi) name")
    case (Some mccmod)
    with assms(2) guard show ?thesis
      by (auto simp: Unpack_def UnpackIntoMap_def)
  next
    case None
    with assms(1) obtain event where "fmlookup (Events abi) name = Some event" by auto
    with None assms(2) guard show ?thesis
      by (auto simp: Unpack_def UnpackIntoMap_def)
  qed
qed

text \<open>
  A document with the function \<^verbatim>\<open>send\<close> and the event \<^verbatim>\<open>e\<close>, which has one input:
  three bytes are refused under both names, by the ABI for the function and by the
  decoder for the event, and empty data is refused under both.
\<close>

theorem Unpack_length_guard_witness:
  "Unpack (\<lambda>arguments v data. Arguments_Unpack arguments data)
     (JSON [\<lparr>field.Type = ''function'', Name = ''send'', Constant = False, Anonymous = False,
              Inputs = [], Outputs = [\<lparr>Argument.Name = ''ok'', Type = Bool, Indexed = False\<rparr>]\<rparr>,
            \<lparr>field.Type = ''event'', Name = ''e'', Constant = False, Anonymous = False,
              Inputs = [\<lparr>Argument.Name = ''x'', Type = Bool, Indexed = False\<rparr>], Outputs = []\<rparr>])
     [] ''send'' [1, 2, 3]
     = Inl (ErrImproperlyFormattedBytes [1, 2, 3]) \<and>
   Unpack (\<lambda>arguments v data. Arguments_Unpack arguments data)
     (JSON [\<lparr>field.Type = ''function'', Name = ''send'', Constant = False, Anonymous = False,
              Inputs = [], Outputs = [\<lparr>Argument.Name = ''ok'', Type = Bool, Indexed = False\<rparr>]\<rparr>,
            \<lparr>field.Type = ''event'', Name = ''e'', Constant = False, Anonymous = False,
              Inputs = [\<lparr>Argument.Name = ''x'', Type = Bool, Indexed = False\<rparr>], Outputs = []\<rparr>])
     [] ''e'' [1, 2, 3]
     = Inl (ErrArguments DecodingError) \<and>
   UnpackIntoMap Arguments_UnpackIntoMap
     (JSON [\<lparr>field.Type = ''function'', Name = ''send'', Constant = False, Anonymous = False,
              Inputs = [], Outputs = [\<lparr>Argument.Name = ''ok'', Type = Bool, Indexed = False\<rparr>]\<rparr>,
            \<lparr>field.Type = ''event'', Name = ''e'', Constant = False, Anonymous = False,
              Inputs = [\<lparr>Argument.Name = ''x'', Type = Bool, Indexed = False\<rparr>], Outputs = []\<rparr>])
     Map.empty ''send'' [1, 2, 3]
     = Inl ErrImproperlyFormatted \<and>
   UnpackIntoMap Arguments_UnpackIntoMap
     (JSON [\<lparr>field.Type = ''function'', Name = ''send'', Constant = False, Anonymous = False,
              Inputs = [], Outputs = [\<lparr>Argument.Name = ''ok'', Type = Bool, Indexed = False\<rparr>]\<rparr>,
            \<lparr>field.Type = ''event'', Name = ''e'', Constant = False, Anonymous = False,
              Inputs = [\<lparr>Argument.Name = ''x'', Type = Bool, Indexed = False\<rparr>], Outputs = []\<rparr>])
     Map.empty ''e'' [1, 2, 3]
     = Inl (ErrArguments DecodingError) \<and>
   Unpack (\<lambda>arguments v data. Arguments_Unpack arguments data)
     (JSON [\<lparr>field.Type = ''function'', Name = ''send'', Constant = False, Anonymous = False,
              Inputs = [], Outputs = [\<lparr>Argument.Name = ''ok'', Type = Bool, Indexed = False\<rparr>]\<rparr>,
            \<lparr>field.Type = ''event'', Name = ''e'', Constant = False, Anonymous = False,
              Inputs = [\<lparr>Argument.Name = ''x'', Type = Bool, Indexed = False\<rparr>], Outputs = []\<rparr>])
     [] ''e'' []
     = Inl ErrEmptyOutput \<and>
   UnpackIntoMap Arguments_UnpackIntoMap
     (JSON [\<lparr>field.Type = ''function'', Name = ''send'', Constant = False, Anonymous = False,
              Inputs = [], Outputs = [\<lparr>Argument.Name = ''ok'', Type = Bool, Indexed = False\<rparr>]\<rparr>,
            \<lparr>field.Type = ''event'', Name = ''e'', Constant = False, Anonymous = False,
              Inputs = [\<lparr>Argument.Name = ''x'', Type = Bool, Indexed = False\<rparr>], Outputs = []\<rparr>])
     Map.empty ''send'' []
     = Inl ErrEmptyOutput \<and>
   Arguments_Unpack [\<lparr>Argument.Name = ''x'', Type = Bool, Indexed = False\<rparr>] [1, 2, 3]
     = Inl DecodingError"
proof -
  let ?doc = "[\<lparr>field.Type = ''function'', Name = ''send'', Constant = False, Anonymous = False,
              Inputs = [], Outputs = [\<lparr>Argument.Name = ''ok'', Type = Bool, Indexed = False\<rparr>]\<rparr>,
            \<lparr>field.Type = ''event'', Name = ''e'', Constant = False, Anonymous = False,
              Inputs = [\<lparr>Argument.Name = ''x'', Type = Bool, Indexed = False\<rparr>], Outputs = []\<rparr>]"
  let ?x = "[\<lparr>Argument.Name = ''x'', Type = Bool, Indexed = False\<rparr>]"
  have look:
    "fmlookup (Mccmods (JSON ?doc)) ''send'' \<noteq> None"
    "fmlookup (Mccmods (JSON ?doc)) ''e'' = None"
    "fmlookup (Events (JSON ?doc)) ''e'' \<noteq> None"
    by (simp_all add: load_simps)
  have len: "length [1, 2, 3 :: byte] = 0 \<or> length [1, 2, 3 :: byte] mod 32 \<noteq> 0"
    "length ([] :: bytes) = 0 \<or> length ([] :: bytes) mod 32 \<noteq> 0"
    "length [1, 2, 3 :: byte] \<noteq> 0" "length ([] :: bytes) = 0"
    by simp_all
  have a: "fmlookup (Mccmods (JSON ?doc)) ''send'' \<noteq> None \<or> fmlookup (Events (JSON ?doc)) ''send'' \<noteq> None"
    and b: "fmlookup (Mccmods (JSON ?doc)) ''e'' \<noteq> None \<or> fmlookup (Events (JSON ?doc)) ''e'' \<noteq> None"
    using look by simp_all
  note s3 = Unpack_length_guard [OF a len(1), where v = "[]" and w = Map.empty and arguments = ?x]
  note e3 = Unpack_length_guard [OF b len(1), where v = "[]" and w = Map.empty and arguments = ?x]
  note s0 = Unpack_length_guard [OF a len(2), where v = "[]" and w = Map.empty and arguments = ?x]
  note e0 = Unpack_length_guard [OF b len(2), where v = "[]" and w = Map.empty and arguments = ?x]
  have 1: "Unpack (\<lambda>arguments v data. Arguments_Unpack arguments data) (JSON ?doc) [] ''send'' [1, 2, 3]
      = Inl (ErrImproperlyFormattedBytes [1, 2, 3])"
    using s3 look(1) len(3) by presburger
  have 2: "Unpack (\<lambda>arguments v data. Arguments_Unpack arguments data) (JSON ?doc) [] ''e'' [1, 2, 3]
      = Inl (ErrArguments DecodingError)"
    using e3 look(2) len(3) by presburger
  have 3: "UnpackIntoMap Arguments_UnpackIntoMap (JSON ?doc) Map.empty ''send'' [1, 2, 3]
      = Inl ErrImproperlyFormatted"
    using s3 look(1) len(3) by presburger
  have 4: "UnpackIntoMap Arguments_UnpackIntoMap (JSON ?doc) Map.empty ''e'' [1, 2, 3]
      = Inl (ErrArguments DecodingError)"
    using e3 look(2) len(3) by presburger
  have 5: "Unpack (\<lambda>arguments v data. Arguments_Unpack arguments data) (JSON ?doc) [] ''e'' []
      = Inl ErrEmptyOutput"
    using e0 len(4) by presburger
  have 6: "UnpackIntoMap Arguments_UnpackIntoMap (JSON ?doc) Map.empty ''send'' []
      = Inl ErrEmptyOutput"
    using s0 len(4) by presburger
  have 7: "Arguments_Unpack ?x [1, 2, 3] = Inl DecodingError"
    using e3 by blast
  from 1 2 3 4 5 6 7 show ?thesis by blast
qed

text \<open>
  C6: for data that is not empty, \<^verbatim>\<open>Unpack\<close> and \<^verbatim>\<open>UnpackIntoMap\<close> look the name up
  among the functions first: a function of that name decides the result (its outputs
  are decoded, after the length check), whatever the events hold. Only when no function
  has the name is the event of that name used. When neither map holds the name, the
  result is the not-found error for every decoder: nothing is decoded.
\<close>

theorem Unpack_name_resolution:
  assumes "data \<noteq> []"
  shows "(fmlookup (Mccmods abi) name = Some mccmod \<longrightarrow>
            Unpack argsUnpack abi v name data =
              (if length data mod 32 \<noteq> 0 then Inl (ErrImproperlyFormattedBytes data)
               else (case argsUnpack (Mccmod.Outputs mccmod) v data of
                       Inl err \<Rightarrow> Inl (ErrArguments err) | Inr v' \<Rightarrow> Inr v')) \<and>
            UnpackIntoMap argsUnpackIntoMap abi w name data =
              (if length data mod 32 \<noteq> 0 then Inl ErrImproperlyFormatted
               else (case argsUnpackIntoMap (Mccmod.Outputs mccmod) w data of
                       Inl err \<Rightarrow> Inl (ErrArguments err) | Inr w' \<Rightarrow> Inr w'))) \<and>
         (fmlookup (Mccmods abi) name = None \<and> fmlookup (Events abi) name = Some event \<longrightarrow>
            Unpack argsUnpack abi v name data =
              (case argsUnpack (Event.Inputs event) v data of
                 Inl err \<Rightarrow> Inl (ErrArguments err) | Inr v' \<Rightarrow> Inr v') \<and>
            UnpackIntoMap argsUnpackIntoMap abi w name data =
              (case argsUnpackIntoMap (Event.Inputs event) w data of
                 Inl err \<Rightarrow> Inl (ErrArguments err) | Inr w' \<Rightarrow> Inr w')) \<and>
         (fmlookup (Mccmods abi) name = None \<and> fmlookup (Events abi) name = None \<longrightarrow>
            Unpack argsUnpack abi v name data = Inl ErrNotLocated \<and>
            UnpackIntoMap argsUnpackIntoMap abi w name data = Inl ErrNotLocated)"
  using assms by (simp add: Unpack_def UnpackIntoMap_def)

text \<open>
  A document with a function and an event both named \<^verbatim>\<open>f\<close>, and an event \<^verbatim>\<open>e\<close>.
  The decoder returns the argument list it was given, so the result shows whose
  arguments were decoded: the function's output for \<^verbatim>\<open>f\<close>, the event's input for
  \<^verbatim>\<open>e\<close>.
\<close>

theorem Unpack_name_resolution_witness:
  "Unpack (\<lambda>arguments v data. Inr arguments :: unit + Arguments)
     (JSON [\<lparr>field.Type = ''event'', Name = ''f'', Constant = False, Anonymous = False,
              Inputs = [\<lparr>Argument.Name = ''x'', Type = Bool, Indexed = False\<rparr>], Outputs = []\<rparr>,
            \<lparr>field.Type = ''function'', Name = ''f'', Constant = False, Anonymous = False,
              Inputs = [], Outputs = [\<lparr>Argument.Name = ''r'', Type = Address, Indexed = False\<rparr>]\<rparr>,
            \<lparr>field.Type = ''event'', Name = ''e'', Constant = False, Anonymous = False,
              Inputs = [\<lparr>Argument.Name = ''y'', Type = String, Indexed = False\<rparr>], Outputs = []\<rparr>])
     [] ''f'' (replicate 32 0)
     = Inr [\<lparr>Argument.Name = ''r'', Type = Address, Indexed = False\<rparr>] \<and>
   Unpack (\<lambda>arguments v data. Inr arguments :: unit + Arguments)
     (JSON [\<lparr>field.Type = ''event'', Name = ''f'', Constant = False, Anonymous = False,
              Inputs = [\<lparr>Argument.Name = ''x'', Type = Bool, Indexed = False\<rparr>], Outputs = []\<rparr>,
            \<lparr>field.Type = ''function'', Name = ''f'', Constant = False, Anonymous = False,
              Inputs = [], Outputs = [\<lparr>Argument.Name = ''r'', Type = Address, Indexed = False\<rparr>]\<rparr>,
            \<lparr>field.Type = ''event'', Name = ''e'', Constant = False, Anonymous = False,
              Inputs = [\<lparr>Argument.Name = ''y'', Type = String, Indexed = False\<rparr>], Outputs = []\<rparr>])
     [] ''e'' (replicate 32 0)
     = Inr [\<lparr>Argument.Name = ''y'', Type = String, Indexed = False\<rparr>] \<and>
   Unpack (\<lambda>arguments v data. Inr arguments :: unit + Arguments)
     (JSON [\<lparr>field.Type = ''event'', Name = ''f'', Constant = False, Anonymous = False,
              Inputs = [\<lparr>Argument.Name = ''x'', Type = Bool, Indexed = False\<rparr>], Outputs = []\<rparr>,
            \<lparr>field.Type = ''function'', Name = ''f'', Constant = False, Anonymous = False,
              Inputs = [], Outputs = [\<lparr>Argument.Name = ''r'', Type = Address, Indexed = False\<rparr>]\<rparr>,
            \<lparr>field.Type = ''event'', Name = ''e'', Constant = False, Anonymous = False,
              Inputs = [\<lparr>Argument.Name = ''y'', Type = String, Indexed = False\<rparr>], Outputs = []\<rparr>])
     [] ''g'' (replicate 32 0)
     = Inl ErrNotLocated"
proof -
  let ?dec = "\<lambda>(arguments :: Arguments) (v :: Arguments) (data :: bytes).
      Inr arguments :: unit + Arguments"
  let ?decm = "\<lambda>(arguments :: Arguments) (v :: string \<rightharpoonup> unit) (data :: bytes).
      Inr v :: unit + (string \<rightharpoonup> unit)"
  let ?doc = "[\<lparr>field.Type = ''event'', Name = ''f'', Constant = False, Anonymous = False,
              Inputs = [\<lparr>Argument.Name = ''x'', Type = Bool, Indexed = False\<rparr>], Outputs = []\<rparr>,
            \<lparr>field.Type = ''function'', Name = ''f'', Constant = False, Anonymous = False,
              Inputs = [], Outputs = [\<lparr>Argument.Name = ''r'', Type = Address, Indexed = False\<rparr>]\<rparr>,
            \<lparr>field.Type = ''event'', Name = ''e'', Constant = False, Anonymous = False,
              Inputs = [\<lparr>Argument.Name = ''y'', Type = String, Indexed = False\<rparr>], Outputs = []\<rparr>]"
  let ?f = "\<lparr>Mccmod.Name = ''f'', Const = False, Inputs = [],
      Outputs = [\<lparr>Argument.Name = ''r'', Type = Address, Indexed = False\<rparr>]\<rparr>"
  let ?e = "\<lparr>Event.Name = ''e'', Anonymous = False,
      Inputs = [\<lparr>Argument.Name = ''y'', Type = String, Indexed = False\<rparr>]\<rparr>"
  have data: "replicate 32 (0 :: byte) \<noteq> []" by simp
  have len: "length (replicate 32 (0 :: byte)) mod 32 = 0" by simp
  have look:
    "fmlookup (Mccmods (JSON ?doc)) ''f'' = Some ?f"
    "fmlookup (Mccmods (JSON ?doc)) ''e'' = None"
    "fmlookup (Events (JSON ?doc)) ''e'' = Some ?e"
    "fmlookup (Mccmods (JSON ?doc)) ''g'' = None"
    "fmlookup (Events (JSON ?doc)) ''g'' = None"
    by (simp_all add: load_simps)
  note f = Unpack_name_resolution [OF data, where abi = "JSON ?doc" and name = "''f''"
      and mccmod = ?f and argsUnpack = ?dec and v = "[]" and argsUnpackIntoMap = ?decm and w = Map.empty]
  note e = Unpack_name_resolution [OF data, where abi = "JSON ?doc" and name = "''e''"
      and event = ?e and argsUnpack = ?dec and v = "[]" and argsUnpackIntoMap = ?decm and w = Map.empty]
  note g = Unpack_name_resolution [OF data, where abi = "JSON ?doc" and name = "''g''"
      and argsUnpack = ?dec and v = "[]" and argsUnpackIntoMap = ?decm and w = Map.empty]
  show ?thesis using f e g look len by simp
qed

section \<open>Lookup by selector: the result\<close>

lemma MccmodById_range_Some:
  "MccmodById_range K m order id4 = Some f \<Longrightarrow>
     \<exists>k \<in> set order. fmlookup m k = Some f \<and> Id_Mccmod K f = id4"
  by (induction order) (auto split: option.splits if_splits)

lemma MccmodById_range_None:
  "MccmodById_range K m order id4 = None \<Longrightarrow> k \<in> set order \<Longrightarrow> fmlookup m k = Some f \<Longrightarrow>
     Id_Mccmod K f \<noteq> id4"
  by (induction order) (auto split: option.splits if_splits)

lemma MccmodById_range_first:
  assumes "\<forall>k \<in> set ks. \<forall>g. fmlookup m k = Some g \<longrightarrow> Id_Mccmod K g \<noteq> id4"
    and "fmlookup m k = Some f" and "Id_Mccmod K f = id4"
  shows "MccmodById_range K m (ks @ k # rest) id4 = Some f"
  using assms by (induction ks) (auto split: option.splits)

text \<open>
  The selectors have at most 4 bytes and the names are infinitely many: whatever the hash
  is, two functions without inputs and with different names have the same selector.
\<close>

lemma selector_collision:
  "\<exists>n n'. n \<noteq> n' \<and>
     Id_Mccmod K \<lparr>Mccmod.Name = n, Const = c, Inputs = [], Outputs = []\<rparr> =
     Id_Mccmod K \<lparr>Mccmod.Name = n', Const = c', Inputs = [], Outputs = []\<rparr>"
proof -
  let ?g = "\<lambda>n :: string. take 4 (K (bytes_of_string (n @ ''()'')))"
  have "finite {xs :: bytes. set xs \<subseteq> UNIV \<and> length xs \<le> 4}"
    by (rule finite_lists_length_le) simp
  moreover have "range ?g \<subseteq> {xs :: bytes. set xs \<subseteq> UNIV \<and> length xs \<le> 4}"
    by auto
  ultimately have fin: "finite (range ?g)"
    by (rule rev_finite_subset)
  have "infinite (UNIV :: string set)"
    by (rule infinite_UNIV_listI)
  with fin have "\<not> inj ?g"
    using finite_imageD by blast
  then obtain n n' where "n \<noteq> n'" "?g n = ?g n'"
    by (auto simp: inj_def)
  then show ?thesis
    by (intro exI [of _ n] exI [of _ n']) (simp add: Id_Mccmod_def Sig_def)
qed

text \<open>
  C10, as the claim states it, fails: the result depends on the order in which the
  range over the map visits the functions, and Go chooses that order anew at every
  range. When two registered functions have the same selector, the function returned is
  the one visited first, so one and the same input has two outcomes. In the first
  registry two functions have the same name and no inputs, hence one signature and one
  selector for every hash, and differ in their constancy: the two orders of the two keys
  return different functions. In the second part the registry is loaded from a document
  of two functions without inputs: for every hash of 32 bytes there are two different
  names whose selectors are the same, and the two orders return different functions on
  the hash of the first signature. The hash \<open>K\<close> is cut or padded to 32 bytes here, so
  that the statement is about every hash of 32 bytes.
\<close>

theorem MccmodById_order_counterexample:
  "(\<forall>K.
      MccmodById (\<lambda>b. take 32 (K b @ replicate 32 0)) [''a'', ''b'']
        \<lparr>Constructor = \<lparr>Mccmod.Name = [], Const = False, Inputs = [], Outputs = []\<rparr>,
         Mccmods = fmupd ''a'' \<lparr>Mccmod.Name = ''f'', Const = False, Inputs = [], Outputs = []\<rparr>
                  (fmupd ''b'' \<lparr>Mccmod.Name = ''f'', Const = True, Inputs = [], Outputs = []\<rparr> fmempty),
         Events = fmempty\<rparr>
        (take 32 (K (bytes_of_string ''f()'') @ replicate 32 0))
      = (Inr \<lparr>Mccmod.Name = ''f'', Const = False, Inputs = [], Outputs = []\<rparr> :: unit error + Mccmod) \<and>
      MccmodById (\<lambda>b. take 32 (K b @ replicate 32 0)) [''b'', ''a'']
        \<lparr>Constructor = \<lparr>Mccmod.Name = [], Const = False, Inputs = [], Outputs = []\<rparr>,
         Mccmods = fmupd ''a'' \<lparr>Mccmod.Name = ''f'', Const = False, Inputs = [], Outputs = []\<rparr>
                  (fmupd ''b'' \<lparr>Mccmod.Name = ''f'', Const = True, Inputs = [], Outputs = []\<rparr> fmempty),
         Events = fmempty\<rparr>
        (take 32 (K (bytes_of_string ''f()'') @ replicate 32 0))
      = (Inr \<lparr>Mccmod.Name = ''f'', Const = True, Inputs = [], Outputs = []\<rparr> :: unit error + Mccmod)) \<and>
   (\<forall>K. \<exists>n n'. n \<noteq> n' \<and>
      fmdom' (Mccmods (JSON
        [\<lparr>field.Type = ''function'', Name = n, Constant = False, Anonymous = False,
           Inputs = [], Outputs = []\<rparr>,
         \<lparr>field.Type = ''function'', Name = n', Constant = True, Anonymous = False,
           Inputs = [], Outputs = []\<rparr>])) = {n, n'} \<and>
      MccmodById (\<lambda>b. take 32 (K b @ replicate 32 0)) [n, n']
        (JSON
          [\<lparr>field.Type = ''function'', Name = n, Constant = False, Anonymous = False,
             Inputs = [], Outputs = []\<rparr>,
           \<lparr>field.Type = ''function'', Name = n', Constant = True, Anonymous = False,
             Inputs = [], Outputs = []\<rparr>])
        (take 32 (K (bytes_of_string (n @ ''()'')) @ replicate 32 0))
      = (Inr \<lparr>Mccmod.Name = n, Const = False, Inputs = [], Outputs = []\<rparr> :: unit error + Mccmod) \<and>
      MccmodById (\<lambda>b. take 32 (K b @ replicate 32 0)) [n', n]
        (JSON
          [\<lparr>field.Type = ''function'', Name = n, Constant = False, Anonymous = False,
             Inputs = [], Outputs = []\<rparr>,
           \<lparr>field.Type = ''function'', Name = n', Constant = True, Anonymous = False,
             Inputs = [], Outputs = []\<rparr>])
        (take 32 (K (bytes_of_string (n @ ''()'')) @ replicate 32 0))
      = (Inr \<lparr>Mccmod.Name = n', Const = True, Inputs = [], Outputs = []\<rparr> :: unit error + Mccmod))"
proof (intro conjI allI)
  fix K :: "bytes \<Rightarrow> bytes"
  let ?H = "\<lambda>b. take 32 (K b @ replicate 32 0)"
  let ?abi = "\<lparr>Constructor = \<lparr>Mccmod.Name = [], Const = False, Inputs = [], Outputs = []\<rparr>,
         Mccmods = fmupd ''a'' \<lparr>Mccmod.Name = ''f'', Const = False, Inputs = [], Outputs = []\<rparr>
                  (fmupd ''b'' \<lparr>Mccmod.Name = ''f'', Const = True, Inputs = [], Outputs = []\<rparr> fmempty),
         Events = fmempty\<rparr>"
  show "MccmodById ?H [''a'', ''b''] ?abi (?H (bytes_of_string ''f()''))
      = (Inr \<lparr>Mccmod.Name = ''f'', Const = False, Inputs = [], Outputs = []\<rparr> :: unit error + Mccmod)"
    by (simp add: MccmodById_def Id_Mccmod_def Sig_def)
  show "MccmodById ?H [''b'', ''a''] ?abi (?H (bytes_of_string ''f()''))
      = (Inr \<lparr>Mccmod.Name = ''f'', Const = True, Inputs = [], Outputs = []\<rparr> :: unit error + Mccmod)"
    by (simp add: MccmodById_def Id_Mccmod_def Sig_def)
next
  fix K :: "bytes \<Rightarrow> bytes"
  let ?H = "\<lambda>b. take 32 (K b @ replicate 32 0)"
  let ?doc = "\<lambda>n n'. [\<lparr>field.Type = ''function'', Name = n, Constant = False, Anonymous = False,
             Inputs = [], Outputs = []\<rparr>,
           \<lparr>field.Type = ''function'', Name = n', Constant = True, Anonymous = False,
             Inputs = [], Outputs = []\<rparr>]"
  let ?f = "\<lambda>n c. \<lparr>Mccmod.Name = n, Const = c, Inputs = [], Outputs = []\<rparr>"
  from selector_collision [of ?H False True]
  obtain n n' where ne: "n \<noteq> n'" and same: "Id_Mccmod ?H (?f n False) = Id_Mccmod ?H (?f n' True)"
    by blast
  have maps: "Mccmods (JSON (?doc n n')) = fmupd n' (?f n' True) (fmupd n (?f n False) fmempty)"
    using ne by (simp add: JSON_def UnmarshalJSON_def UnmarshalJSON_field_def disambiguate.simps)
  have id: "Id_Mccmod ?H (?f n False) = take 4 (?H (bytes_of_string (n @ ''()'')))"
    by (simp add: Id_Mccmod_def Sig_def)
  have len: "\<not> length (?H (bytes_of_string (n @ ''()''))) < 4"
    by simp
  have dom: "fmdom' (Mccmods (JSON (?doc n n'))) = {n, n'}"
    unfolding maps by auto
  have one: "MccmodById ?H [n, n'] (JSON (?doc n n')) (?H (bytes_of_string (n @ ''()'')))
      = (Inr (?f n False) :: unit error + Mccmod)"
    unfolding MccmodById_def maps using ne id len by simp
  have two: "MccmodById ?H [n', n] (JSON (?doc n n')) (?H (bytes_of_string (n @ ''()'')))
      = (Inr (?f n' True) :: unit error + Mccmod)"
    unfolding MccmodById_def maps using ne id same len by simp
  from ne dom one two
  show "\<exists>n n'. n \<noteq> n' \<and>
      fmdom' (Mccmods (JSON (?doc n n'))) = {n, n'} \<and>
      MccmodById ?H [n, n'] (JSON (?doc n n')) (?H (bytes_of_string (n @ ''()'')))
      = (Inr (?f n False) :: unit error + Mccmod) \<and>
      MccmodById ?H [n', n] (JSON (?doc n n')) (?H (bytes_of_string (n @ ''()'')))
      = (Inr (?f n' True) :: unit error + Mccmod)"
    by blast
qed

text \<open>
  C10, amended: on fewer than 4 bytes \<^verbatim>\<open>MccmodById\<close> returns the too-short error, which
  names only the length: no function is consulted. On at least 4 bytes the result
  depends on the first 4 bytes and on the order of the range over the map: two inputs
  with the same first 4 bytes give the same result under one order. When the range
  visits the keys of the map, the result is a function stored in the map whose selector
  is those 4 bytes, or, exactly when no stored function has that selector, the error
  that names the 4 bytes; the function returned is the first one in the order whose
  selector is those 4 bytes. When no two different stored functions have those 4 bytes
  as their selector, the result is the same under every two orders.
\<close>

theorem MccmodById_result:
  "(length sigdata < 4 \<longrightarrow>
      MccmodById K order abi sigdata = (Inl (ErrDataTooShort (length sigdata)) :: 'e error + Mccmod)) \<and>
   (4 \<le> length sigdata \<and> 4 \<le> length sigdata' \<and> take 4 sigdata = take 4 sigdata' \<longrightarrow>
      MccmodById K order abi sigdata = (MccmodById K order abi sigdata' :: 'e error + Mccmod)) \<and>
   (4 \<le> length sigdata \<and> set order = fmdom' (Mccmods abi) \<longrightarrow>
      (case (MccmodById K order abi sigdata :: 'e error + Mccmod) of
         Inr f \<Rightarrow> (\<exists>k. fmlookup (Mccmods abi) k = Some f) \<and> Id_Mccmod K f = take 4 sigdata
       | Inl e \<Rightarrow> e = ErrNoMccmodWithId (take 4 sigdata) \<and>
           (\<forall>k f. fmlookup (Mccmods abi) k = Some f \<longrightarrow> Id_Mccmod K f \<noteq> take 4 sigdata))) \<and>
   (4 \<le> length sigdata \<and> order = ks @ k # rest \<and>
    (\<forall>k' \<in> set ks. \<forall>g. fmlookup (Mccmods abi) k' = Some g \<longrightarrow> Id_Mccmod K g \<noteq> take 4 sigdata) \<and>
    fmlookup (Mccmods abi) k = Some f \<and> Id_Mccmod K f = take 4 sigdata \<longrightarrow>
      MccmodById K order abi sigdata = (Inr f :: 'e error + Mccmod)) \<and>
   (4 \<le> length sigdata \<and> 4 \<le> length sigdata' \<and> take 4 sigdata = take 4 sigdata' \<and>
    set order = fmdom' (Mccmods abi) \<and> set order' = fmdom' (Mccmods abi) \<and>
    (\<forall>k k' f f'. fmlookup (Mccmods abi) k = Some f \<and> fmlookup (Mccmods abi) k' = Some f' \<and>
       Id_Mccmod K f = take 4 sigdata \<and> Id_Mccmod K f' = take 4 sigdata \<longrightarrow> f = f') \<longrightarrow>
      MccmodById K order abi sigdata = (MccmodById K order' abi sigdata' :: 'e error + Mccmod))"
proof (intro conjI impI)
  assume "length sigdata < 4"
  then show "MccmodById K order abi sigdata = (Inl (ErrDataTooShort (length sigdata)) :: 'e error + Mccmod)"
    by (simp add: MccmodById_def)
next
  assume "4 \<le> length sigdata \<and> 4 \<le> length sigdata' \<and> take 4 sigdata = take 4 sigdata'"
  then show "MccmodById K order abi sigdata = (MccmodById K order abi sigdata' :: 'e error + Mccmod)"
    by (simp add: MccmodById_def split: option.splits)
next
  assume a: "4 \<le> length sigdata \<and> set order = fmdom' (Mccmods abi)"
  show "case (MccmodById K order abi sigdata :: 'e error + Mccmod) of
         Inr f \<Rightarrow> (\<exists>k. fmlookup (Mccmods abi) k = Some f) \<and> Id_Mccmod K f = take 4 sigdata
       | Inl e \<Rightarrow> e = ErrNoMccmodWithId (take 4 sigdata) \<and>
           (\<forall>k f. fmlookup (Mccmods abi) k = Some f \<longrightarrow> Id_Mccmod K f \<noteq> take 4 sigdata)"
  proof (cases "MccmodById_range K (Mccmods abi) order (take 4 sigdata)")
    case None
    have "Id_Mccmod K f \<noteq> take 4 sigdata" if "fmlookup (Mccmods abi) k = Some f" for k f
    proof -
      from that have "k \<in> set order" using a by (auto intro: fmdom'I)
      with None that show ?thesis by (auto dest: MccmodById_range_None)
    qed
    with None a show ?thesis by (simp add: MccmodById_def)
  next
    case (Some f)
    from MccmodById_range_Some [OF Some] Some a show ?thesis
      by (auto simp: MccmodById_def)
  qed
next
  assume a: "4 \<le> length sigdata \<and> order = ks @ k # rest \<and>
    (\<forall>k' \<in> set ks. \<forall>g. fmlookup (Mccmods abi) k' = Some g \<longrightarrow> Id_Mccmod K g \<noteq> take 4 sigdata) \<and>
    fmlookup (Mccmods abi) k = Some f \<and> Id_Mccmod K f = take 4 sigdata"
  then have "MccmodById_range K (Mccmods abi) (ks @ k # rest) (take 4 sigdata) = Some f"
    by (intro MccmodById_range_first) blast+
  with a show "MccmodById K order abi sigdata = (Inr f :: 'e error + Mccmod)"
    by (simp add: MccmodById_def)
next
  assume a: "4 \<le> length sigdata \<and> 4 \<le> length sigdata' \<and> take 4 sigdata = take 4 sigdata' \<and>
    set order = fmdom' (Mccmods abi) \<and> set order' = fmdom' (Mccmods abi) \<and>
    (\<forall>k k' f f'. fmlookup (Mccmods abi) k = Some f \<and> fmlookup (Mccmods abi) k' = Some f' \<and>
       Id_Mccmod K f = take 4 sigdata \<and> Id_Mccmod K f' = take 4 sigdata \<longrightarrow> f = f')"
  let ?r = "MccmodById_range K (Mccmods abi) order (take 4 sigdata)"
  let ?r' = "MccmodById_range K (Mccmods abi) order' (take 4 sigdata)"
  have "?r = ?r'"
  proof (cases ?r)
    case None
    show ?thesis
    proof (cases ?r')
      case None with \<open>?r = None\<close> show ?thesis by simp
    next
      case (Some g)
      from MccmodById_range_Some [OF Some] obtain k where
        k: "fmlookup (Mccmods abi) k = Some g" "Id_Mccmod K g = take 4 sigdata" by blast
      then have "k \<in> set order" using a by (auto intro: fmdom'I)
      from MccmodById_range_None [OF None this k(1)] k(2) show ?thesis by simp
    qed
  next
    case (Some f)
    from MccmodById_range_Some [OF Some] obtain k where
      k: "fmlookup (Mccmods abi) k = Some f" "Id_Mccmod K f = take 4 sigdata" by blast
    show ?thesis
    proof (cases ?r')
      case None
      from k have "k \<in> set order'" using a by (auto intro: fmdom'I)
      from MccmodById_range_None [OF None this k(1)] k(2) show ?thesis by simp
    next
      case (Some g)
      from MccmodById_range_Some [OF Some] obtain k' where
        k': "fmlookup (Mccmods abi) k' = Some g" "Id_Mccmod K g = take 4 sigdata" by blast
      from a k k' have "f = g" by blast
      with Some \<open>?r = Some f\<close> show ?thesis by simp
    qed
  qed
  moreover from a have "take 4 sigdata' = take 4 sigdata" "\<not> length sigdata < 4"
      "\<not> length sigdata' < 4"
    by simp_all
  ultimately show "MccmodById K order abi sigdata = (MccmodById K order' abi sigdata' :: 'e error + Mccmod)"
    unfolding MccmodById_def by (cases ?r') simp_all
qed

text \<open>
  The hash of the witness is the input itself, padded with zeros to 32 bytes: the
  selector of \<^verbatim>\<open>send(uint256)\<close> is then the bytes of \<^verbatim>\<open>send\<close>, that of \<^verbatim>\<open>balance()\<close>
  the bytes of \<^verbatim>\<open>bala\<close>, and no function of the schema has a selector of four zeros.
\<close>

theorem MccmodById_result_witness:
  "MccmodById (\<lambda>b. take 32 (b @ replicate 32 0)) [''balance'', ''send'']
      (JSON (take 2 mccmoddata)) [1, 2, 3]
     = (Inl (ErrDataTooShort 3) :: unit error + Mccmod) \<and>
   MccmodById (\<lambda>b. take 32 (b @ replicate 32 0)) [''balance'', ''send'']
      (JSON (take 2 mccmoddata)) (bytes_of_string ''send-and-more'')
     = (MccmodById (\<lambda>b. take 32 (b @ replicate 32 0)) [''balance'', ''send'']
      (JSON (take 2 mccmoddata)) (bytes_of_string ''send'') :: unit error + Mccmod) \<and>
   MccmodById (\<lambda>b. take 32 (b @ replicate 32 0)) [''balance'', ''send'']
      (JSON (take 2 mccmoddata)) (bytes_of_string ''send'')
     = (Inr \<lparr>Mccmod.Name = ''send'', Const = False,
          Inputs = [\<lparr>Argument.Name = ''amount'', Type = UnsignedInt 256, Indexed = False\<rparr>],
          Outputs = []\<rparr> :: unit error + Mccmod) \<and>
   MccmodById (\<lambda>b. take 32 (b @ replicate 32 0)) [''balance'', ''send'']
      (JSON (take 2 mccmoddata)) [0, 0, 0, 0, 9]
     = (Inl (ErrNoMccmodWithId [0, 0, 0, 0]) :: unit error + Mccmod) \<and>
   MccmodById (\<lambda>b. take 32 (b @ replicate 32 0)) [''send'', ''balance'']
      (JSON (take 2 mccmoddata)) (bytes_of_string ''send-and-more'')
     = (MccmodById (\<lambda>b. take 32 (b @ replicate 32 0)) [''balance'', ''send'']
      (JSON (take 2 mccmoddata)) (bytes_of_string ''send'') :: unit error + Mccmod)"
proof -
  let ?K = "\<lambda>b :: bytes. take 32 (b @ replicate 32 0)"
  let ?abi = "JSON (take 2 mccmoddata)"
  let ?order = "[''balance'', ''send'']"
  let ?order' = "[''send'', ''balance'']"
  let ?balance = "\<lparr>Mccmod.Name = ''balance'', Const = True, Inputs = [], Outputs = []\<rparr>"
  let ?send = "\<lparr>Mccmod.Name = ''send'', Const = False,
          Inputs = [\<lparr>Argument.Name = ''amount'', Type = UnsignedInt 256, Indexed = False\<rparr>],
          Outputs = []\<rparr>"
  have maps: "Mccmods ?abi = fmupd ''send'' ?send (fmupd ''balance'' ?balance fmempty)"
    by (simp add: load_simps mccmoddata_def)
  have dom: "set ?order = fmdom' (Mccmods ?abi)" "set ?order' = fmdom' (Mccmods ?abi)"
    unfolding maps by auto
  have ids: "Id_Mccmod ?K ?send = bytes_of_string ''send''"
    "Id_Mccmod ?K ?balance = bytes_of_string ''bala''"
    by (simp_all add: Id_Mccmod_def Sig_def bytes_of_string_def decimal.simps)
  have look: "fmlookup (Mccmods ?abi) ''balance'' = Some ?balance"
    "fmlookup (Mccmods ?abi) ''send'' = Some ?send"
    unfolding maps by simp_all
  have t4: "take 4 (bytes_of_string ''send'') = bytes_of_string ''send''"
    "take 4 (bytes_of_string ''send-and-more'') = bytes_of_string ''send''"
    "4 \<le> length (bytes_of_string ''send'')" "4 \<le> length (bytes_of_string ''send-and-more'')"
    "take 4 [0, 0, 0, 0, 9 :: byte] = [0, 0, 0, 0]" "4 \<le> length [0, 0, 0, 0, 9 :: byte]"
    by (simp_all add: bytes_of_string_def)
  have ne: "bytes_of_string ''bala'' \<noteq> bytes_of_string ''send''"
    "bytes_of_string ''bala'' \<noteq> [0, 0, 0, 0]" "bytes_of_string ''send'' \<noteq> [0, 0, 0, 0]"
    by (simp_all add: bytes_of_string_def)
  have len3: "length [1, 2, 3 :: byte] = 3" by simp
  have a: "MccmodById ?K ?order ?abi [1, 2, 3] = (Inl (ErrDataTooShort 3) :: unit error + Mccmod)"
    using MccmodById_result [where sigdata = "[1, 2, 3]" and K = ?K and order = ?order
      and abi = ?abi, where ?'e = unit] unfolding len3 by simp
  have b: "MccmodById ?K ?order ?abi (bytes_of_string ''send-and-more'')
      = (MccmodById ?K ?order ?abi (bytes_of_string ''send'') :: unit error + Mccmod)"
    using MccmodById_result [where sigdata = "bytes_of_string ''send-and-more''"
      and sigdata' = "bytes_of_string ''send''" and K = ?K and order = ?order
      and abi = ?abi, where ?'e = unit] t4
    by simp
  have first: "\<forall>k' \<in> set [''balance'']. \<forall>g. fmlookup (Mccmods ?abi) k' = Some g \<longrightarrow>
      Id_Mccmod ?K g \<noteq> take 4 (bytes_of_string ''send'')"
    using look(1) ids(2) ne(1) t4(1) by simp
  have c: "MccmodById ?K ?order ?abi (bytes_of_string ''send'') = (Inr ?send :: unit error + Mccmod)"
    using MccmodById_result [where sigdata = "bytes_of_string ''send''" and K = ?K
      and order = ?order and abi = ?abi and ks = "[''balance'']" and k = "''send''" and rest = "[]"
      and f = ?send, where ?'e = unit] first look(2) ids(1) t4(1,3)
    by simp
  have none: "\<forall>k f. fmlookup (Mccmods ?abi) k = Some f \<longrightarrow> Id_Mccmod ?K f \<noteq> [0, 0, 0, 0]"
    unfolding maps using ids ne by (auto split: if_splits)
  have d: "MccmodById ?K ?order ?abi [0, 0, 0, 0, 9] = (Inl (ErrNoMccmodWithId [0, 0, 0, 0]) :: unit error + Mccmod)"
  proof -
    from MccmodById_result [where sigdata = "[0, 0, 0, 0, 9]" and K = ?K
      and order = ?order and abi = ?abi, where ?'e = unit] dom(1) t4(6)
    have "case (MccmodById ?K ?order ?abi [0, 0, 0, 0, 9] :: unit error + Mccmod) of
         Inr f \<Rightarrow> (\<exists>k. fmlookup (Mccmods ?abi) k = Some f) \<and> Id_Mccmod ?K f = take 4 [0, 0, 0, 0, 9]
       | Inl e \<Rightarrow> e = ErrNoMccmodWithId (take 4 [0, 0, 0, 0, 9]) \<and>
           (\<forall>k f. fmlookup (Mccmods ?abi) k = Some f \<longrightarrow> Id_Mccmod ?K f \<noteq> take 4 [0, 0, 0, 0, 9])"
      by blast
    with none show ?thesis unfolding t4(5)
      by (cases "MccmodById ?K ?order ?abi [0, 0, 0, 0, 9] :: unit error + Mccmod") auto
  qed
  have uniq: "\<forall>k k' f f'. fmlookup (Mccmods ?abi) k = Some f \<and> fmlookup (Mccmods ?abi) k' = Some f' \<and>
       Id_Mccmod ?K f = take 4 (bytes_of_string ''send-and-more'') \<and>
       Id_Mccmod ?K f' = take 4 (bytes_of_string ''send-and-more'') \<longrightarrow> f = f'"
    unfolding maps t4(2) using ids ne by (auto split: if_splits)
  have e: "MccmodById ?K ?order' ?abi (bytes_of_string ''send-and-more'')
      = (MccmodById ?K ?order ?abi (bytes_of_string ''send'') :: unit error + Mccmod)"
  proof (rule MccmodById_result [where sigdata = "bytes_of_string ''send-and-more''"
      and sigdata' = "bytes_of_string ''send''" and K = ?K and order = ?order' and order' = ?order
      and abi = ?abi, where ?'e = unit, THEN conjunct2, THEN conjunct2, THEN conjunct2,
      THEN conjunct2, THEN mp])
    have same: "take 4 (bytes_of_string ''send-and-more'') = take 4 (bytes_of_string ''send'')"
      unfolding t4(1,2) ..
    show "4 \<le> length (bytes_of_string ''send-and-more'') \<and>
      4 \<le> length (bytes_of_string ''send'') \<and>
      take 4 (bytes_of_string ''send-and-more'') = take 4 (bytes_of_string ''send'') \<and>
      set ?order' = fmdom' (Mccmods ?abi) \<and> set ?order = fmdom' (Mccmods ?abi) \<and>
      (\<forall>k k' f f'. fmlookup (Mccmods ?abi) k = Some f \<and> fmlookup (Mccmods ?abi) k' = Some f' \<and>
         Id_Mccmod ?K f = take 4 (bytes_of_string ''send-and-more'') \<and>
         Id_Mccmod ?K f' = take 4 (bytes_of_string ''send-and-more'') \<longrightarrow> f = f')"
      by (intro conjI) (rule t4(3) t4(4) same dom uniq)+
  qed
  show ?thesis using a b c d e by blast
qed

section \<open>Packing\<close>

text \<open>
  C5: with the empty name \<^verbatim>\<open>Pack\<close> returns what the encoder returns for the
  constructor's inputs, with nothing before it. With a name that is not empty and is a
  key of the functions, it returns the selector of that function followed by the
  encoded inputs (the first 4 bytes of the result are the selector, the rest the
  encoding, when the hash has 32 bytes), and the encoder's error when the values do not
  fit. With a name that is not empty and is no key of the functions, it returns the
  not-found error, for every encoder: nothing is encoded.
\<close>

theorem Pack_selector_prefix:
  "Pack K argsPack abi [] args =
     (case argsPack (Mccmod.Inputs (Constructor abi)) args of
        Inl err \<Rightarrow> Inl (ErrArguments err) | Inr arguments \<Rightarrow> Inr arguments) \<and>
   (name \<noteq> [] \<and> fmlookup (Mccmods abi) name = Some mccmod \<and>
    argsPack (Mccmod.Inputs mccmod) args = Inr arguments \<and>
    length (K (bytes_of_string (Sig mccmod))) = 32 \<longrightarrow>
      Pack K argsPack abi name args = Inr (Id_Mccmod K mccmod @ arguments) \<and>
      length (Id_Mccmod K mccmod) = 4 \<and>
      map_sum id (take 4) (Pack K argsPack abi name args) = Inr (Id_Mccmod K mccmod) \<and>
      map_sum id (drop 4) (Pack K argsPack abi name args) = Inr arguments) \<and>
   (name \<noteq> [] \<and> fmlookup (Mccmods abi) name = Some mccmod \<and>
    argsPack (Mccmod.Inputs mccmod) args = Inl err \<longrightarrow>
      Pack K argsPack abi name args = Inl (ErrArguments err)) \<and>
   (name \<noteq> [] \<and> fmlookup (Mccmods abi) name = None \<longrightarrow>
      Pack K argsPack abi name args = Inl (ErrMccmodNotFound name))"
  by (simp add: Pack_def Id_Mccmod_def)

text \<open>
  The encoder of the witness writes one byte per value and refuses a wrong number of
  values; the hash is the input, padded with zeros to 32 bytes.
\<close>

theorem Pack_selector_prefix_witness:
  "Pack (\<lambda>b. take 32 (b @ replicate 32 0))
      (\<lambda>arguments vs. if length vs = length arguments then Inr vs else Inl (length vs))
      (JSON mccmoddata) ''send'' [7]
     = Inr (bytes_of_string ''send'' @ [7]) \<and>
   Pack (\<lambda>b. take 32 (b @ replicate 32 0))
      (\<lambda>arguments vs. if length vs = length arguments then Inr vs else Inl (length vs))
      (JSON mccmoddata) ''send'' []
     = Inl (ErrArguments 0) \<and>
   Pack (\<lambda>b. take 32 (b @ replicate 32 0))
      (\<lambda>arguments vs. if length vs = length arguments then Inr vs else Inl (length vs))
      (JSON mccmoddata) ''sent'' [7]
     = Inl (ErrMccmodNotFound ''sent'') \<and>
   Pack (\<lambda>b. take 32 (b @ replicate 32 0))
      (\<lambda>arguments vs. if length vs = length arguments then Inr vs else Inl (length vs))
      (JSON mccmoddata) [] []
     = Inr []"
proof -
  let ?K = "\<lambda>b :: bytes. take 32 (b @ replicate 32 0)"
  let ?enc = "\<lambda>(arguments :: Arguments) (vs :: bytes).
      if length vs = length arguments then Inr vs else (Inl (length vs) :: nat + bytes)"
  let ?abi = "JSON mccmoddata"
  let ?send = "\<lparr>Mccmod.Name = ''send'', Const = False,
      Inputs = [\<lparr>Argument.Name = ''amount'', Type = UnsignedInt 256, Indexed = False\<rparr>],
      Outputs = []\<rparr>"
  have look: "fmlookup (Mccmods ?abi) ''send'' = Some ?send"
    "fmlookup (Mccmods ?abi) ''sent'' = None"
    "Mccmod.Inputs (Constructor ?abi) = []"
    by (simp_all add: load_simps mccmoddata_def)
  have id: "Id_Mccmod ?K ?send = bytes_of_string ''send''"
    by (simp add: Id_Mccmod_def Sig_def bytes_of_string_def decimal.simps)
  have len: "length (?K (bytes_of_string (Sig ?send))) = 32"
    by simp
  have a: "Pack ?K ?enc ?abi ''send'' [7] = Inr (bytes_of_string ''send'' @ [7])"
    using Pack_selector_prefix [where K = ?K and argsPack = ?enc and abi = ?abi and name = "''send''"
      and mccmod = ?send and args = "[7]" and arguments = "[7]"] look len
    unfolding id by simp
  have b: "Pack ?K ?enc ?abi ''send'' [] = Inl (ErrArguments 0)"
    using Pack_selector_prefix [where K = ?K and argsPack = ?enc and abi = ?abi and name = "''send''"
      and mccmod = ?send and args = "[]" and err = 0] look
    by simp
  have c: "Pack ?K ?enc ?abi ''sent'' [7] = Inl (ErrMccmodNotFound ''sent'')"
    using Pack_selector_prefix [where K = ?K and argsPack = ?enc and abi = ?abi and name = "''sent''"
      and args = "[7]"] look
    by simp
  have d: "Pack ?K ?enc ?abi [] [] = Inr []"
    using Pack_selector_prefix [where K = ?K and argsPack = ?enc and abi = ?abi and args = "[]"] look
    by simp
  show ?thesis using a b c d by blast
qed

section \<open>Signatures and selectors\<close>

text \<open>
  \<^verbatim>\<open>strings.Join\<close> written out: the first element, then every other element after a
  separator.
\<close>

lemma Join_separators: "Join (x # xs) sep = x @ concat (map (\<lambda>y. sep @ y) xs)"
  by (induction xs arbitrary: x) simp_all

text \<open>The byte of a character is its code, so the bytes of a string tell the string.\<close>

lemma unat_byte_of_char: "unat (of_char c :: byte) = of_char c"
proof -
  have "(of_char c :: nat) < 256" by (rule nat_of_char_less_256)
  then have "unat (of_nat (of_char c) :: byte) = of_char c"
    by (simp add: unat_of_nat)
  then show ?thesis by (simp add: of_nat_of_char)
qed

lemma codes_of_bytes: "map unat (bytes_of_string s) = map of_char s"
  by (simp add: bytes_of_string_def unat_byte_of_char)


text \<open>
  C4: the signature of a function is its name, an opening parenthesis, the canonical
  strings of the types of its inputs with a comma between every two of them, and a
  closing parenthesis: nothing between the parentheses for a function without inputs,
  else the string of the first type followed by a comma and the string of the type for
  every further input. The bytes hashed are the codes of the characters of the
  signature, one byte each. The selector is the first 4 bytes of the hash of these
  bytes, and has 4 bytes when the hash has 32. Both are functions of the name and of the
  types of the inputs alone: two functions that agree on these have the same signature
  and the same selector, whatever their outputs, their argument names and their
  constancy, and so has one function at every call.
\<close>

theorem Sig_Id_canonical:
  "Sig f = Mccmod.Name f @ ''('' @
      (case Mccmod.Inputs f of
         [] \<Rightarrow> []
       | input # inputs \<Rightarrow>
           type_string (Argument.Type input) @
           concat (map (\<lambda>i. '','' @ type_string (Argument.Type i)) inputs)) @ '')'' \<and>
   length (bytes_of_string (Sig f)) = length (Sig f) \<and>
   map unat (bytes_of_string (Sig f)) = map of_char (Sig f) \<and>
   Id_Mccmod K f = take 4 (K (bytes_of_string (Sig f))) \<and>
   (length (K (bytes_of_string (Sig f))) = 32 \<longrightarrow> length (Id_Mccmod K f) = 4) \<and>
   (Mccmod.Name f = Mccmod.Name g \<and>
    map Argument.Type (Mccmod.Inputs f) = map Argument.Type (Mccmod.Inputs g) \<longrightarrow>
      Sig f = Sig g \<and> Id_Mccmod K f = Id_Mccmod K g)"
proof -
  have shape: "Sig f = Mccmod.Name f @ ''('' @
      (case Mccmod.Inputs f of
         [] \<Rightarrow> []
       | input # inputs \<Rightarrow>
           type_string (Argument.Type input) @
           concat (map (\<lambda>i. '','' @ type_string (Argument.Type i)) inputs)) @ '')''"
    by (cases "Mccmod.Inputs f") (simp_all add: Sig_def Join_separators comp_def)
  have types: "map (\<lambda>input. type_string (Argument.Type input)) xs
      = map type_string (map Argument.Type xs)" for xs :: Arguments
    by simp
  have same: "Sig f = Sig g"
    if "Mccmod.Name f = Mccmod.Name g"
      "map Argument.Type (Mccmod.Inputs f) = map Argument.Type (Mccmod.Inputs g)"
    using that unfolding Sig_def Let_def types by simp
  have bytes: "length (bytes_of_string (Sig f)) = length (Sig f)"
    by (simp add: bytes_of_string_def)
  have id: "Id_Mccmod K f = take 4 (K (bytes_of_string (Sig f)))"
    "length (K (bytes_of_string (Sig f))) = 32 \<longrightarrow> length (Id_Mccmod K f) = 4"
    by (simp_all add: Id_Mccmod_def)
  have det: "Mccmod.Name f = Mccmod.Name g \<and>
    map Argument.Type (Mccmod.Inputs f) = map Argument.Type (Mccmod.Inputs g) \<longrightarrow>
      Sig f = Sig g \<and> Id_Mccmod K f = Id_Mccmod K g"
    using same by (simp add: Id_Mccmod_def)
  from shape bytes codes_of_bytes [of "Sig f"] id det show ?thesis
    by (intro conjI)
qed

text \<open>
  The function \<^verbatim>\<open>transfer\<close> of the schema of the tests, a second function of the
  same name and input types, and \<^verbatim>\<open>balance\<close>, which has no inputs. The hash of the
  witness is the input itself, padded with zeros to 32 bytes, so that the selector is
  the first four bytes of the signature.
\<close>

theorem Sig_Id_canonical_witness:
  "Sig \<lparr>Mccmod.Name = ''transfer'', Const = False,
         Inputs = [\<lparr>Argument.Name = ''from'', Type = Address, Indexed = False\<rparr>,
                   \<lparr>Argument.Name = ''to'', Type = Address, Indexed = False\<rparr>,
                   \<lparr>Argument.Name = ''value'', Type = UnsignedInt 256, Indexed = False\<rparr>],
         Outputs = [\<lparr>Argument.Name = ''success'', Type = Bool, Indexed = False\<rparr>]\<rparr>
     = ''transfer(address,address,uint256)'' \<and>
   Sig \<lparr>Mccmod.Name = ''balance'', Const = True, Inputs = [], Outputs = []\<rparr> = ''balance()'' \<and>
   Id_Mccmod (\<lambda>b. take 32 (b @ replicate 32 0))
       \<lparr>Mccmod.Name = ''transfer'', Const = False,
         Inputs = [\<lparr>Argument.Name = ''from'', Type = Address, Indexed = False\<rparr>,
                   \<lparr>Argument.Name = ''to'', Type = Address, Indexed = False\<rparr>,
                   \<lparr>Argument.Name = ''value'', Type = UnsignedInt 256, Indexed = False\<rparr>],
         Outputs = [\<lparr>Argument.Name = ''success'', Type = Bool, Indexed = False\<rparr>]\<rparr>
     = [0x74, 0x72, 0x61, 0x6e] \<and>
   Sig \<lparr>Mccmod.Name = ''transfer'', Const = True,
         Inputs = [\<lparr>Argument.Name = ''a'', Type = Address, Indexed = False\<rparr>,
                   \<lparr>Argument.Name = ''b'', Type = Address, Indexed = True\<rparr>,
                   \<lparr>Argument.Name = [], Type = UnsignedInt 256, Indexed = False\<rparr>],
         Outputs = []\<rparr>
     = ''transfer(address,address,uint256)'' \<and>
   Id_Mccmod (\<lambda>b. take 32 (b @ replicate 32 0))
       \<lparr>Mccmod.Name = ''transfer'', Const = True,
         Inputs = [\<lparr>Argument.Name = ''a'', Type = Address, Indexed = False\<rparr>,
                   \<lparr>Argument.Name = ''b'', Type = Address, Indexed = True\<rparr>,
                   \<lparr>Argument.Name = [], Type = UnsignedInt 256, Indexed = False\<rparr>],
         Outputs = []\<rparr>
     = [0x74, 0x72, 0x61, 0x6e]"
proof -
  let ?K = "\<lambda>b :: bytes. take 32 (b @ replicate 32 0)"
  let ?f = "\<lparr>Mccmod.Name = ''transfer'', Const = False,
         Inputs = [\<lparr>Argument.Name = ''from'', Type = Address, Indexed = False\<rparr>,
                   \<lparr>Argument.Name = ''to'', Type = Address, Indexed = False\<rparr>,
                   \<lparr>Argument.Name = ''value'', Type = UnsignedInt 256, Indexed = False\<rparr>],
         Outputs = [\<lparr>Argument.Name = ''success'', Type = Bool, Indexed = False\<rparr>]\<rparr>"
  let ?g = "\<lparr>Mccmod.Name = ''transfer'', Const = True,
         Inputs = [\<lparr>Argument.Name = ''a'', Type = Address, Indexed = False\<rparr>,
                   \<lparr>Argument.Name = ''b'', Type = Address, Indexed = True\<rparr>,
                   \<lparr>Argument.Name = [], Type = UnsignedInt 256, Indexed = False\<rparr>],
         Outputs = []\<rparr>"
  let ?b = "\<lparr>Mccmod.Name = ''balance'', Const = True, Inputs = [], Outputs = []\<rparr>"
  note tf = Sig_Id_canonical [where f = ?f and g = ?g and K = ?K]
  note tb = Sig_Id_canonical [where f = ?b and g = ?b and K = ?K]
  have sf: "Sig ?f = ''transfer(address,address,uint256)''"
    using tf [THEN conjunct1] by (simp add: decimal.simps)
  have sb: "Sig ?b = ''balance()''"
    using tb [THEN conjunct1] by simp
  have idf: "Id_Mccmod ?K ?f = [0x74, 0x72, 0x61, 0x6e]"
    using tf [THEN conjunct2, THEN conjunct2, THEN conjunct2, THEN conjunct1]
    unfolding sf by (simp add: bytes_of_string_def)
  have names: "Mccmod.Name ?f = Mccmod.Name ?g \<and>
      map Argument.Type (Mccmod.Inputs ?f) = map Argument.Type (Mccmod.Inputs ?g)"
    by simp
  from tf [THEN conjunct2, THEN conjunct2, THEN conjunct2, THEN conjunct2, THEN conjunct2,
      THEN mp, OF names]
  have eq: "Sig ?f = Sig ?g" "Id_Mccmod ?K ?f = Id_Mccmod ?K ?g"
    by blast+
  from eq sf idf have sg: "Sig ?g = ''transfer(address,address,uint256)''"
    and idg: "Id_Mccmod ?K ?g = [0x74, 0x72, 0x61, 0x6e]"
    by simp_all
  from sf sb idf sg idg show ?thesis by (intro conjI)
qed

section \<open>The signatures of the schema of the tests\<close>

text \<open>
  C7: in the registry loaded from the schema of section 8 (as the tests write it, and
  as the spec writes it), a tuple is rendered as its component types in parentheses,
  and the array suffixes follow the closing parenthesis.
\<close>

theorem Sig_tuple_schema:
  "map_option Sig (fmlookup (Mccmods (JSON mccmoddata)) ''tuple'')
     = Some ''tuple((uint256,uint256))'' \<and>
   map_option Sig (fmlookup (Mccmods (JSON mccmoddata)) ''tupleArray'')
     = Some ''tupleArray((uint256,uint256)[5])'' \<and>
   map_option Sig (fmlookup (Mccmods (JSON mccmoddata)) ''complexTuple'')
     = Some ''complexTuple((uint256,uint256)[5][])'' \<and>
   map_option Sig (fmlookup (Mccmods (JSON mccmoddata)) ''tupleSlice'')
     = Some ''tupleSlice((uint256,uint256)[])'' \<and>
   map_option Sig (fmlookup (Mccmods (JSON mccmoddata)) ''balance'') = Some ''balance()'' \<and>
   map_option Sig (fmlookup (Mccmods (JSON mccmoddata)) ''send'') = Some ''send(uint256)'' \<and>
   map_option Sig (fmlookup (Mccmods (JSON schema_section8)) ''tuple'')
     = Some ''tuple((uint256,uint256))'' \<and>
   map_option Sig (fmlookup (Mccmods (JSON schema_section8)) ''tupleArray'')
     = Some ''tupleArray((uint256,uint256)[5])'' \<and>
   map_option Sig (fmlookup (Mccmods (JSON schema_section8)) ''complexTuple'')
     = Some ''complexTuple((uint256,uint256)[5][])'' \<and>
   map_option Sig (fmlookup (Mccmods (JSON schema_section8)) ''balance'') = Some ''balance()'' \<and>
   map_option Sig (fmlookup (Mccmods (JSON schema_section8)) ''send'') = Some ''send(uint256)''"
  by (simp add: load_simps mccmoddata_def schema_section8_def Sig_def)

text \<open>
  C8: the signature of \<^verbatim>\<open>transfer\<close> and its rendering. An input is rendered as its
  type, a space and its name; an output as its type and, when it has a name, a space
  and the name; \<^verbatim>\<open>constant\<close> is written before \<^verbatim>\<open>returns\<close> exactly for a constant
  function, as for \<^verbatim>\<open>balance\<close>.
\<close>

theorem transfer_Sig_String:
  "map_option Sig (fmlookup (Mccmods (JSON mccmoddata)) ''transfer'')
     = Some ''transfer(address,address,uint256)'' \<and>
   map_option String_Mccmod (fmlookup (Mccmods (JSON mccmoddata)) ''transfer'')
     = Some ''function transfer(address from, address to, uint256 value) returns(bool success)'' \<and>
   map_option Sig (fmlookup (Mccmods (JSON schema_section8)) ''transfer'')
     = Some ''transfer(address,address,uint256)'' \<and>
   map_option String_Mccmod (fmlookup (Mccmods (JSON schema_section8)) ''transfer'')
     = Some ''function transfer(address from, address to, uint256 value) returns(bool success)'' \<and>
   map_option String_Mccmod (fmlookup (Mccmods (JSON mccmoddata)) ''balance'')
     = Some ''function balance() constant returns()'' \<and>
   String_Mccmod mccmod =
     ''function '' @ Mccmod.Name mccmod @ ''('' @
       Join (map (\<lambda>input. type_string (Argument.Type input) @ '' '' @ Argument.Name input)
              (Mccmod.Inputs mccmod)) '', '' @
     '') '' @ (if Mccmod.Const mccmod then ''constant '' else []) @ ''returns('' @
       Join (map (\<lambda>output. type_string (Argument.Type output) @
                    (if Argument.Name output = [] then [] else '' '' @ Argument.Name output))
              (Mccmod.Outputs mccmod)) '', '' @
     '')''"
proof -
  have outs: "(\<lambda>output. type_string (Argument.Type output) @
                 (if length (Argument.Name output) > 0 then '' '' @ Argument.Name output else []))
      = (\<lambda>output. type_string (Argument.Type output) @
                 (if Argument.Name output = [] then [] else '' '' @ Argument.Name output))"
    by auto
  have general: "String_Mccmod mccmod =
     ''function '' @ Mccmod.Name mccmod @ ''('' @
       Join (map (\<lambda>input. type_string (Argument.Type input) @ '' '' @ Argument.Name input)
              (Mccmod.Inputs mccmod)) '', '' @
     '') '' @ (if Mccmod.Const mccmod then ''constant '' else []) @ ''returns('' @
       Join (map (\<lambda>output. type_string (Argument.Type output) @
                    (if Argument.Name output = [] then [] else '' '' @ Argument.Name output))
              (Mccmod.Outputs mccmod)) '', '' @
     '')''"
    unfolding String_Mccmod_def Let_def outs by simp
  have concrete:
    "map_option Sig (fmlookup (Mccmods (JSON mccmoddata)) ''transfer'')
       = Some ''transfer(address,address,uint256)''"
    "map_option String_Mccmod (fmlookup (Mccmods (JSON mccmoddata)) ''transfer'')
       = Some ''function transfer(address from, address to, uint256 value) returns(bool success)''"
    "map_option Sig (fmlookup (Mccmods (JSON schema_section8)) ''transfer'')
       = Some ''transfer(address,address,uint256)''"
    "map_option String_Mccmod (fmlookup (Mccmods (JSON schema_section8)) ''transfer'')
       = Some ''function transfer(address from, address to, uint256 value) returns(bool success)''"
    "map_option String_Mccmod (fmlookup (Mccmods (JSON mccmoddata)) ''balance'')
       = Some ''function balance() constant returns()''"
    by (simp_all add: load_simps mccmoddata_def schema_section8_def Sig_def String_Mccmod_def)
  from general concrete show ?thesis by blast
qed

section \<open>Disambiguation of declared names\<close>

text \<open>The search returns the first free name of the sequence.\<close>

lemma disambiguate_search:
  assumes "\<forall>j. idx \<le> j \<and> j < k \<longrightarrow> fmlookup m (base @ decimal j) \<noteq> None"
    and "fmlookup m (base @ decimal k) = None" and "idx \<le> k"
  shows "disambiguate m base name True idx = base @ decimal k"
  using assms
proof (induction "k - idx" arbitrary: idx name)
  case 0
  then have "idx = k" by simp
  with "0.prems"(2) show ?case
    by (subst disambiguate.simps) (simp add: Let_def disambiguate.simps)
next
  case (Suc d)
  then have lt: "idx < k" by simp
  with Suc.prems(1) have occ: "fmlookup m (base @ decimal idx) \<noteq> None" by simp
  have "disambiguate m base (base @ decimal idx) True (idx + 1) = base @ decimal k"
  proof (rule Suc.hyps(1))
    show "d = k - (idx + 1)" using Suc.hyps(2) by simp
    show "\<forall>j. idx + 1 \<le> j \<and> j < k \<longrightarrow> fmlookup m (base @ decimal j) \<noteq> None"
      using Suc.prems(1) by simp
    show "fmlookup m (base @ decimal k) = None" by (rule Suc.prems(2))
    show "idx + 1 \<le> k" using lt by simp
  qed
  with occ show ?case
    by (subst disambiguate.simps) (simp add: Let_def)
qed

lemma count_list_snoc: "count_list (ns @ [n]) a = count_list ns a + (if a = n then 1 else 0)"
  by (induction ns) auto

lemma keys_of_snoc:
  "keys_of (ns @ [n]) = insert (occurrence_key n (count_list ns n)) (keys_of ns)"
proof -
  have "c < count_list (ns @ [n]) a \<longleftrightarrow> c < count_list ns a \<or> (a = n \<and> c = count_list ns n)"
    for a c
    by (auto simp: count_list_snoc)
  then show ?thesis by (auto simp: keys_of_def)
qed


text \<open>
  Whatever the map holds, the search ends on a name that is not a key: the declared name
  if it is free, else the declared name followed by the least index that gives a free
  name.
\<close>

lemma disambiguate_first_free:
  "fmlookup m (disambiguate m n n (fmlookup m n \<noteq> None) 0) = None \<and>
   (if fmlookup m n = None then disambiguate m n n (fmlookup m n \<noteq> None) 0 = n
    else \<exists>k. disambiguate m n n (fmlookup m n \<noteq> None) 0 = n @ decimal k \<and>
           (\<forall>j < k. fmlookup m (n @ decimal j) \<noteq> None))"
proof (cases "fmlookup m n = None")
  case True
  then show ?thesis by (subst (1 2) disambiguate.simps) simp
next
  case False
  have "\<exists>j. fmlookup m (n @ decimal j) = None"
  proof (rule ccontr)
    assume "\<not> (\<exists>j. fmlookup m (n @ decimal j) = None)"
    then have "{j. fmlookup m (n @ decimal j) \<noteq> None} = UNIV" by auto
    with finite_suffixed_keys [of m n] show False by simp
  qed
  then obtain j where j: "fmlookup m (n @ decimal j) = None" ..
  define k where "k = (LEAST j. fmlookup m (n @ decimal j) = None)"
  have free: "fmlookup m (n @ decimal k) = None"
    unfolding k_def using j by (rule LeastI)
  have taken: "\<forall>j. 0 \<le> j \<and> j < k \<longrightarrow> fmlookup m (n @ decimal j) \<noteq> None"
    unfolding k_def by (auto dest: not_less_Least)
  from taken free have "disambiguate m n n True 0 = n @ decimal k"
    by (rule disambiguate_search) simp
  with False free taken show ?thesis by auto
qed

text \<open>
  When the keys of the map are those that the numbering predicts for the names declared
  so far, and the key predicted for the next entry is not among them, the search finds
  that key.
\<close>

lemma fresh_key:
  assumes dom: "fmdom' m = keys_of ns"
    and out: "occurrence_key n (count_list ns n) \<notin> fmdom' m"
  shows "disambiguate m n n (fmlookup m n \<noteq> None) 0 = occurrence_key n (count_list ns n)"
proof -
  let ?c = "count_list ns n"
  have in_dom: "occurrence_key n c \<in> fmdom' m" if "c < ?c" for c
    using that dom by (auto simp: keys_of_def)
  show ?thesis
  proof (cases ?c)
    case 0
    with out have "fmlookup m n = None" by (auto simp: occurrence_key_def)
    with 0 show ?thesis
      by (subst disambiguate.simps) (simp add: occurrence_key_def)
  next
    case (Suc k)
    from in_dom [of 0] Suc have occ: "fmlookup m n \<noteq> None"
      by (auto simp: occurrence_key_def fmlookup_dom'_iff)
    have "\<forall>j. 0 \<le> j \<and> j < k \<longrightarrow> fmlookup m (n @ decimal j) \<noteq> None"
    proof (intro allI impI)
      fix j assume "0 \<le> j \<and> j < k"
      with in_dom [of "Suc j"] Suc show "fmlookup m (n @ decimal j) \<noteq> None"
        by (auto simp: occurrence_key_def fmlookup_dom'_iff)
    qed
    moreover from out Suc have "fmlookup m (n @ decimal k) = None"
      by (auto simp: occurrence_key_def)
    ultimately have "disambiguate m n n True 0 = n @ decimal k"
      by (rule disambiguate_search) simp
    with occ Suc show ?thesis by (simp add: occurrence_key_def)
  qed
qed

lemma UnmarshalJSON_snoc:
  "UnmarshalJSON abi (fs @ [f]) = UnmarshalJSON_field (UnmarshalJSON abi fs) f"
  by (simp add: UnmarshalJSON_def)

lemma Mccmods_field:
  "Mccmods (UnmarshalJSON_field a f) =
     (if is_function f then
        fmupd (disambiguate (Mccmods a) (field.Name f) (field.Name f)
                 (fmlookup (Mccmods a) (field.Name f) \<noteq> None) 0)
          \<lparr>Mccmod.Name = disambiguate (Mccmods a) (field.Name f) (field.Name f)
                 (fmlookup (Mccmods a) (field.Name f) \<noteq> None) 0,
            Const = Constant f, Inputs = field.Inputs f, Outputs = field.Outputs f\<rparr>
          (Mccmods a)
      else Mccmods a)"
  by (auto simp: UnmarshalJSON_field_def is_function_def Let_def)

lemma Events_field:
  "Events (UnmarshalJSON_field a f) =
     (if is_event f then
        fmupd (disambiguate (Events a) (field.Name f) (field.Name f)
                 (fmlookup (Events a) (field.Name f) \<noteq> None) 0)
          \<lparr>Event.Name = disambiguate (Events a) (field.Name f) (field.Name f)
                 (fmlookup (Events a) (field.Name f) \<noteq> None) 0,
            Anonymous = field.Anonymous f, Inputs = field.Inputs f\<rparr>
          (Events a)
      else Events a)"
  by (auto simp: UnmarshalJSON_field_def is_event_def Let_def)

lemma names_of_snoc:
  "names_of kind (fs @ [f]) = (if kind f then names_of kind fs @ [field.Name f] else names_of kind fs)"
  by (simp add: names_of_def)


lemma Events_function: "is_function f \<Longrightarrow> Events (UnmarshalJSON_field a f) = Events a"
  by (auto simp: UnmarshalJSON_field_def is_function_def Let_def)

lemma Mccmods_event: "is_event f \<Longrightarrow> Mccmods (UnmarshalJSON_field a f) = Mccmods a"
  by (auto simp: UnmarshalJSON_field_def is_event_def Let_def)

lemma predicted_keys_snoc:
  "predicted_keys kind (fs @ [f]) =
     predicted_keys kind fs @
     (if kind f then [occurrence_key (field.Name f) (count_list (names_of kind fs) (field.Name f))]
      else [])"
proof -
  have old: "map (\<lambda>i. occurrence_key (field.Name ((fs @ [f]) ! i)) (earlier kind (fs @ [f]) i))
        (filter (\<lambda>i. kind ((fs @ [f]) ! i)) [0 ..< length fs])
      = map (\<lambda>i. occurrence_key (field.Name (fs ! i)) (earlier kind fs i))
        (filter (\<lambda>i. kind (fs ! i)) [0 ..< length fs])"
  proof -
    have "filter (\<lambda>i. kind ((fs @ [f]) ! i)) [0 ..< length fs]
        = filter (\<lambda>i. kind (fs ! i)) [0 ..< length fs]"
      by (rule filter_cong) (simp_all add: nth_append)
    moreover have "map (\<lambda>i. occurrence_key (field.Name ((fs @ [f]) ! i)) (earlier kind (fs @ [f]) i))
          (filter (\<lambda>i. kind (fs ! i)) [0 ..< length fs])
        = map (\<lambda>i. occurrence_key (field.Name (fs ! i)) (earlier kind fs i))
          (filter (\<lambda>i. kind (fs ! i)) [0 ..< length fs])"
      by (rule map_cong) (simp_all add: nth_append earlier_def)
    ultimately show ?thesis by simp
  qed
  have new: "earlier kind (fs @ [f]) (length fs) = count_list (names_of kind fs) (field.Name f)"
    by (simp add: earlier_def)
  show ?thesis
    unfolding predicted_keys_def using old new by simp
qed

lemma set_predicted_keys: "set (predicted_keys kind fs) = keys_of (names_of kind fs)"
proof (induction fs rule: rev_induct)
  case Nil
  show ?case by (simp add: predicted_keys_def names_of_def keys_of_def)
next
  case (snoc f fs)
  then show ?case
    by (simp add: predicted_keys_snoc names_of_snoc keys_of_snoc)
qed

lemma distinct_predicted_keys_snoc:
  assumes "distinct (predicted_keys kind (fs @ [f]))"
  shows "distinct (predicted_keys kind fs)"
    and "kind f \<Longrightarrow> occurrence_key (field.Name f) (count_list (names_of kind fs) (field.Name f))
           \<notin> keys_of (names_of kind fs)"
  using assms by (auto simp: predicted_keys_snoc set_predicted_keys split: if_splits)

lemma Mccmods_invariant:
  assumes "distinct (predicted_keys is_function fs)"
  shows "fmdom' (Mccmods (UnmarshalJSON abi fs)) = keys_of (names_of is_function fs) \<and>
     (\<forall>i < length fs. is_function (fs ! i) \<longrightarrow>
        fmlookup (Mccmods (UnmarshalJSON abi fs))
          (occurrence_key (field.Name (fs ! i)) (earlier is_function fs i))
        = Some \<lparr>Mccmod.Name = occurrence_key (field.Name (fs ! i)) (earlier is_function fs i),
                 Const = Constant (fs ! i), Inputs = field.Inputs (fs ! i),
                 Outputs = field.Outputs (fs ! i)\<rparr>)"
  using assms
proof (induction fs rule: rev_induct)
  case Nil
  show ?case by (simp add: UnmarshalJSON_def names_of_def keys_of_def)
next
  case (snoc f fs)
  let ?a = "UnmarshalJSON abi fs"
  let ?ns = "names_of is_function fs"
  have earlier_old: "earlier is_function (fs @ [f]) i = earlier is_function fs i"
    "(fs @ [f]) ! i = fs ! i" if "i < length fs" for i
    using that by (simp_all add: earlier_def nth_append)
  have earlier_new: "earlier is_function (fs @ [f]) (length fs) = count_list ?ns (field.Name f)"
    by (simp add: earlier_def)
  show ?case
  proof (cases "is_function f")
    case False
    from snoc.prems have "distinct (predicted_keys is_function fs)"
      by (rule distinct_predicted_keys_snoc)
    from snoc.IH [OF this] have dom: "fmdom' (Mccmods ?a) = keys_of ?ns"
      and old: "\<And>i. i < length fs \<Longrightarrow> is_function (fs ! i) \<Longrightarrow>
        fmlookup (Mccmods ?a) (occurrence_key (field.Name (fs ! i)) (earlier is_function fs i))
        = Some \<lparr>Mccmod.Name = occurrence_key (field.Name (fs ! i)) (earlier is_function fs i),
                 Const = Constant (fs ! i), Inputs = field.Inputs (fs ! i),
                 Outputs = field.Outputs (fs ! i)\<rparr>"
      by blast+
    have same: "Mccmods (UnmarshalJSON abi (fs @ [f])) = Mccmods ?a"
      using False by (simp add: UnmarshalJSON_snoc Mccmods_field)
    show ?thesis
    proof (intro conjI allI impI)
      show "fmdom' (Mccmods (UnmarshalJSON abi (fs @ [f]))) = keys_of (names_of is_function (fs @ [f]))"
        using False dom same by (simp add: names_of_snoc)
    next
      fix i assume i: "i < length (fs @ [f])" and fn: "is_function ((fs @ [f]) ! i)"
      from i fn False have "i < length fs"
        by (cases "i = length fs") auto
      with fn old [of i] show "fmlookup (Mccmods (UnmarshalJSON abi (fs @ [f])))
          (occurrence_key (field.Name ((fs @ [f]) ! i)) (earlier is_function (fs @ [f]) i))
        = Some \<lparr>Mccmod.Name = occurrence_key (field.Name ((fs @ [f]) ! i)) (earlier is_function (fs @ [f]) i),
                 Const = Constant ((fs @ [f]) ! i), Inputs = field.Inputs ((fs @ [f]) ! i),
                 Outputs = field.Outputs ((fs @ [f]) ! i)\<rparr>"
        by (simp add: earlier_old same)
    qed
  next
    case True
    let ?n = "field.Name f"
    let ?key = "occurrence_key ?n (count_list ?ns ?n)"
    from snoc.prems have cf: "distinct (predicted_keys is_function fs)"
      by (rule distinct_predicted_keys_snoc)
    from distinct_predicted_keys_snoc(2) [OF snoc.prems True]
    have out: "?key \<notin> keys_of ?ns" .
    from snoc.IH [OF cf] have dom: "fmdom' (Mccmods ?a) = keys_of ?ns"
      and old: "\<And>i. i < length fs \<Longrightarrow> is_function (fs ! i) \<Longrightarrow>
        fmlookup (Mccmods ?a) (occurrence_key (field.Name (fs ! i)) (earlier is_function fs i))
        = Some \<lparr>Mccmod.Name = occurrence_key (field.Name (fs ! i)) (earlier is_function fs i),
                 Const = Constant (fs ! i), Inputs = field.Inputs (fs ! i),
                 Outputs = field.Outputs (fs ! i)\<rparr>"
      by blast+
    from out dom have fresh: "?key \<notin> fmdom' (Mccmods ?a)" by simp
    from fresh_key [OF dom fresh] have
      key: "disambiguate (Mccmods ?a) ?n ?n (fmlookup (Mccmods ?a) ?n \<noteq> None) 0 = ?key" .
    have new: "Mccmods (UnmarshalJSON abi (fs @ [f])) =
        fmupd ?key \<lparr>Mccmod.Name = ?key, Const = Constant f, Inputs = field.Inputs f,
          Outputs = field.Outputs f\<rparr> (Mccmods ?a)"
      unfolding UnmarshalJSON_snoc Mccmods_field key using True by simp
    show ?thesis
    proof (intro conjI allI impI)
      show "fmdom' (Mccmods (UnmarshalJSON abi (fs @ [f]))) = keys_of (names_of is_function (fs @ [f]))"
        using True dom by (simp add: new names_of_snoc keys_of_snoc)
    next
      fix i assume i: "i < length (fs @ [f])" and fn: "is_function ((fs @ [f]) ! i)"
      show "fmlookup (Mccmods (UnmarshalJSON abi (fs @ [f])))
          (occurrence_key (field.Name ((fs @ [f]) ! i)) (earlier is_function (fs @ [f]) i))
        = Some \<lparr>Mccmod.Name = occurrence_key (field.Name ((fs @ [f]) ! i)) (earlier is_function (fs @ [f]) i),
                 Const = Constant ((fs @ [f]) ! i), Inputs = field.Inputs ((fs @ [f]) ! i),
                 Outputs = field.Outputs ((fs @ [f]) ! i)\<rparr>"
      proof (cases "i < length fs")
        case True
        with fn have fn': "is_function (fs ! i)" by (simp add: nth_append)
        from old [OF True fn'] have
          "occurrence_key (field.Name (fs ! i)) (earlier is_function fs i) \<in> fmdom' (Mccmods ?a)"
          by (rule fmdom'I)
        with fresh have "occurrence_key (field.Name (fs ! i)) (earlier is_function fs i) \<noteq> ?key"
          by auto
        with old [OF True fn'] True show ?thesis
          by (simp add: earlier_old new)
      next
        case False
        with i have "i = length fs" by simp
        then show ?thesis by (simp add: earlier_new new)
      qed
    qed
  qed
qed

lemma Events_invariant:
  assumes "distinct (predicted_keys is_event fs)"
  shows "fmdom' (Events (UnmarshalJSON abi fs)) = keys_of (names_of is_event fs) \<and>
     (\<forall>i < length fs. is_event (fs ! i) \<longrightarrow>
        fmlookup (Events (UnmarshalJSON abi fs))
          (occurrence_key (field.Name (fs ! i)) (earlier is_event fs i))
        = Some \<lparr>Event.Name = occurrence_key (field.Name (fs ! i)) (earlier is_event fs i),
                 Anonymous = field.Anonymous (fs ! i), Inputs = field.Inputs (fs ! i)\<rparr>)"
  using assms
proof (induction fs rule: rev_induct)
  case Nil
  show ?case by (simp add: UnmarshalJSON_def names_of_def keys_of_def)
next
  case (snoc f fs)
  let ?a = "UnmarshalJSON abi fs"
  let ?ns = "names_of is_event fs"
  have earlier_old: "earlier is_event (fs @ [f]) i = earlier is_event fs i"
    "(fs @ [f]) ! i = fs ! i" if "i < length fs" for i
    using that by (simp_all add: earlier_def nth_append)
  have earlier_new: "earlier is_event (fs @ [f]) (length fs) = count_list ?ns (field.Name f)"
    by (simp add: earlier_def)
  show ?case
  proof (cases "is_event f")
    case False
    from snoc.prems have "distinct (predicted_keys is_event fs)"
      by (rule distinct_predicted_keys_snoc)
    from snoc.IH [OF this] have dom: "fmdom' (Events ?a) = keys_of ?ns"
      and old: "\<And>i. i < length fs \<Longrightarrow> is_event (fs ! i) \<Longrightarrow>
        fmlookup (Events ?a) (occurrence_key (field.Name (fs ! i)) (earlier is_event fs i))
        = Some \<lparr>Event.Name = occurrence_key (field.Name (fs ! i)) (earlier is_event fs i),
                 Anonymous = field.Anonymous (fs ! i), Inputs = field.Inputs (fs ! i)\<rparr>"
      by blast+
    have same: "Events (UnmarshalJSON abi (fs @ [f])) = Events ?a"
      using False by (simp add: UnmarshalJSON_snoc Events_field)
    show ?thesis
    proof (intro conjI allI impI)
      show "fmdom' (Events (UnmarshalJSON abi (fs @ [f]))) = keys_of (names_of is_event (fs @ [f]))"
        using False dom same by (simp add: names_of_snoc)
    next
      fix i assume i: "i < length (fs @ [f])" and fn: "is_event ((fs @ [f]) ! i)"
      from i fn False have "i < length fs"
        by (cases "i = length fs") auto
      with fn old [of i] show "fmlookup (Events (UnmarshalJSON abi (fs @ [f])))
          (occurrence_key (field.Name ((fs @ [f]) ! i)) (earlier is_event (fs @ [f]) i))
        = Some \<lparr>Event.Name = occurrence_key (field.Name ((fs @ [f]) ! i)) (earlier is_event (fs @ [f]) i),
                 Anonymous = field.Anonymous ((fs @ [f]) ! i), Inputs = field.Inputs ((fs @ [f]) ! i)\<rparr>"
        by (simp add: earlier_old same)
    qed
  next
    case True
    let ?n = "field.Name f"
    let ?key = "occurrence_key ?n (count_list ?ns ?n)"
    from snoc.prems have cf: "distinct (predicted_keys is_event fs)"
      by (rule distinct_predicted_keys_snoc)
    from distinct_predicted_keys_snoc(2) [OF snoc.prems True]
    have out: "?key \<notin> keys_of ?ns" .
    from snoc.IH [OF cf] have dom: "fmdom' (Events ?a) = keys_of ?ns"
      and old: "\<And>i. i < length fs \<Longrightarrow> is_event (fs ! i) \<Longrightarrow>
        fmlookup (Events ?a) (occurrence_key (field.Name (fs ! i)) (earlier is_event fs i))
        = Some \<lparr>Event.Name = occurrence_key (field.Name (fs ! i)) (earlier is_event fs i),
                 Anonymous = field.Anonymous (fs ! i), Inputs = field.Inputs (fs ! i)\<rparr>"
      by blast+
    from out dom have fresh: "?key \<notin> fmdom' (Events ?a)" by simp
    from fresh_key [OF dom fresh] have
      key: "disambiguate (Events ?a) ?n ?n (fmlookup (Events ?a) ?n \<noteq> None) 0 = ?key" .
    have new: "Events (UnmarshalJSON abi (fs @ [f])) =
        fmupd ?key \<lparr>Event.Name = ?key, Anonymous = field.Anonymous f, Inputs = field.Inputs f\<rparr> (Events ?a)"
      unfolding UnmarshalJSON_snoc Events_field key using True by simp
    show ?thesis
    proof (intro conjI allI impI)
      show "fmdom' (Events (UnmarshalJSON abi (fs @ [f]))) = keys_of (names_of is_event (fs @ [f]))"
        using True dom by (simp add: new names_of_snoc keys_of_snoc)
    next
      fix i assume i: "i < length (fs @ [f])" and fn: "is_event ((fs @ [f]) ! i)"
      show "fmlookup (Events (UnmarshalJSON abi (fs @ [f])))
          (occurrence_key (field.Name ((fs @ [f]) ! i)) (earlier is_event (fs @ [f]) i))
        = Some \<lparr>Event.Name = occurrence_key (field.Name ((fs @ [f]) ! i)) (earlier is_event (fs @ [f]) i),
                 Anonymous = field.Anonymous ((fs @ [f]) ! i), Inputs = field.Inputs ((fs @ [f]) ! i)\<rparr>"
      proof (cases "i < length fs")
        case True
        with fn have fn': "is_event (fs ! i)" by (simp add: nth_append)
        from old [OF True fn'] have
          "occurrence_key (field.Name (fs ! i)) (earlier is_event fs i) \<in> fmdom' (Events ?a)"
          by (rule fmdom'I)
        with fresh have "occurrence_key (field.Name (fs ! i)) (earlier is_event fs i) \<noteq> ?key"
          by auto
        with old [OF True fn'] True show ?thesis
          by (simp add: earlier_old new)
      next
        case False
        with i have "i = length fs" by simp
        then show ?thesis by (simp add: earlier_new new)
      qed
    qed
  qed
qed

text \<open>
  C3, as the claim states it, fails when a declared name is itself another declared
  name followed by a number. In the first document \<^verbatim>\<open>foo0\<close> is declared before the
  two entries \<^verbatim>\<open>foo\<close>: the second \<^verbatim>\<open>foo\<close> finds \<^verbatim>\<open>foo0\<close> taken and becomes
  \<^verbatim>\<open>foo1\<close>. In the second document \<^verbatim>\<open>foo0\<close> is declared after them: its first
  occurrence does not get the bare name, it becomes \<^verbatim>\<open>foo00\<close>.
\<close>

theorem disambiguation_counterexample:
  "fmlookup (Mccmods (JSON
      [\<lparr>field.Type = ''function'', Name = ''foo0'', Constant = True, Anonymous = False,
         Inputs = [], Outputs = []\<rparr>,
       \<lparr>field.Type = ''function'', Name = ''foo'', Constant = False, Anonymous = False,
         Inputs = [\<lparr>Argument.Name = ''a'', Type = Bool, Indexed = False\<rparr>], Outputs = []\<rparr>,
       \<lparr>field.Type = ''function'', Name = ''foo'', Constant = False, Anonymous = False,
         Inputs = [\<lparr>Argument.Name = ''b'', Type = Address, Indexed = False\<rparr>], Outputs = []\<rparr>]))
     ''foo0''
     = Some \<lparr>Mccmod.Name = ''foo0'', Const = True, Inputs = [], Outputs = []\<rparr> \<and>
   fmlookup (Mccmods (JSON
      [\<lparr>field.Type = ''function'', Name = ''foo0'', Constant = True, Anonymous = False,
         Inputs = [], Outputs = []\<rparr>,
       \<lparr>field.Type = ''function'', Name = ''foo'', Constant = False, Anonymous = False,
         Inputs = [\<lparr>Argument.Name = ''a'', Type = Bool, Indexed = False\<rparr>], Outputs = []\<rparr>,
       \<lparr>field.Type = ''function'', Name = ''foo'', Constant = False, Anonymous = False,
         Inputs = [\<lparr>Argument.Name = ''b'', Type = Address, Indexed = False\<rparr>], Outputs = []\<rparr>]))
     ''foo1''
     = Some \<lparr>Mccmod.Name = ''foo1'', Const = False,
         Inputs = [\<lparr>Argument.Name = ''b'', Type = Address, Indexed = False\<rparr>], Outputs = []\<rparr> \<and>
   fmlookup (Mccmods (JSON
      [\<lparr>field.Type = ''function'', Name = ''foo'', Constant = False, Anonymous = False,
         Inputs = [\<lparr>Argument.Name = ''a'', Type = Bool, Indexed = False\<rparr>], Outputs = []\<rparr>,
       \<lparr>field.Type = ''function'', Name = ''foo'', Constant = False, Anonymous = False,
         Inputs = [\<lparr>Argument.Name = ''b'', Type = Address, Indexed = False\<rparr>], Outputs = []\<rparr>,
       \<lparr>field.Type = ''function'', Name = ''foo0'', Constant = True, Anonymous = False,
         Inputs = [], Outputs = []\<rparr>]))
     ''foo0''
     = Some \<lparr>Mccmod.Name = ''foo0'', Const = False,
         Inputs = [\<lparr>Argument.Name = ''b'', Type = Address, Indexed = False\<rparr>], Outputs = []\<rparr> \<and>
   fmlookup (Mccmods (JSON
      [\<lparr>field.Type = ''function'', Name = ''foo'', Constant = False, Anonymous = False,
         Inputs = [\<lparr>Argument.Name = ''a'', Type = Bool, Indexed = False\<rparr>], Outputs = []\<rparr>,
       \<lparr>field.Type = ''function'', Name = ''foo'', Constant = False, Anonymous = False,
         Inputs = [\<lparr>Argument.Name = ''b'', Type = Address, Indexed = False\<rparr>], Outputs = []\<rparr>,
       \<lparr>field.Type = ''function'', Name = ''foo0'', Constant = True, Anonymous = False,
         Inputs = [], Outputs = []\<rparr>]))
     ''foo00''
     = Some \<lparr>Mccmod.Name = ''foo00'', Const = True, Inputs = [], Outputs = []\<rparr>"
  by (simp add: load_simps)

text \<open>
  C3, amended. In general the loader takes the entries in document order, and every
  function entry (respectively event entry) is stored in the map of the functions
  (respectively events) alone, under the first of the names \<open>name\<close>, \<open>name0\<close>,
  \<open>name1\<close>, ... that is not yet a key of that map, with this key as its \<^verbatim>\<open>Name\<close>.
  When the keys that the numbering of the claim gives the function entries of the
  document are pairwise different, the function entry at position \<open>i\<close>, with \<open>c\<close>
  earlier function entries of the same declared name, is stored under the bare name
  when \<open>c = 0\<close> and under the name followed by \<open>c - 1\<close> otherwise, with this key as its
  \<^verbatim>\<open>Name\<close> and its own flags and arguments. The same holds for event entries and the
  events map; each kind counts only its own entries.
\<close>

theorem disambiguation_in_document_order:
  "(distinct (predicted_keys is_function document) \<and> i < length document \<and>
    is_function (document ! i) \<longrightarrow>
      fmlookup (Mccmods (UnmarshalJSON abi document))
        (occurrence_key (field.Name (document ! i)) (earlier is_function document i))
      = Some \<lparr>Mccmod.Name = occurrence_key (field.Name (document ! i)) (earlier is_function document i),
               Const = Constant (document ! i), Inputs = field.Inputs (document ! i),
               Outputs = field.Outputs (document ! i)\<rparr>) \<and>
   (distinct (predicted_keys is_event document) \<and> i < length document \<and>
    is_event (document ! i) \<longrightarrow>
      fmlookup (Events (UnmarshalJSON abi document))
        (occurrence_key (field.Name (document ! i)) (earlier is_event document i))
      = Some \<lparr>Event.Name = occurrence_key (field.Name (document ! i)) (earlier is_event document i),
               Anonymous = field.Anonymous (document ! i),
               Inputs = field.Inputs (document ! i)\<rparr>) \<and>
   occurrence_key name 0 = name \<and>
   occurrence_key name (Suc k) = name @ decimal k \<and>
   UnmarshalJSON abi (document @ [f]) = UnmarshalJSON_field (UnmarshalJSON abi document) f \<and>
   (is_function f \<longrightarrow>
      (\<exists>key. Mccmods (UnmarshalJSON_field a f) =
                fmupd key \<lparr>Mccmod.Name = key, Const = Constant f, Inputs = field.Inputs f,
                            Outputs = field.Outputs f\<rparr> (Mccmods a) \<and>
              Events (UnmarshalJSON_field a f) = Events a \<and>
              fmlookup (Mccmods a) key = None \<and>
              (if fmlookup (Mccmods a) (field.Name f) = None then key = field.Name f
               else \<exists>idx. key = field.Name f @ decimal idx \<and>
                      (\<forall>j < idx. fmlookup (Mccmods a) (field.Name f @ decimal j) \<noteq> None)))) \<and>
   (is_event f \<longrightarrow>
      (\<exists>key. Events (UnmarshalJSON_field a f) =
                fmupd key \<lparr>Event.Name = key, Anonymous = field.Anonymous f,
                            Inputs = field.Inputs f\<rparr> (Events a) \<and>
              Mccmods (UnmarshalJSON_field a f) = Mccmods a \<and>
              fmlookup (Events a) key = None \<and>
              (if fmlookup (Events a) (field.Name f) = None then key = field.Name f
               else \<exists>idx. key = field.Name f @ decimal idx \<and>
                      (\<forall>j < idx. fmlookup (Events a) (field.Name f @ decimal j) \<noteq> None))))"
proof -
  have fn: "is_function f \<longrightarrow>
      (\<exists>key. Mccmods (UnmarshalJSON_field a f) =
                fmupd key \<lparr>Mccmod.Name = key, Const = Constant f, Inputs = field.Inputs f,
                            Outputs = field.Outputs f\<rparr> (Mccmods a) \<and>
              Events (UnmarshalJSON_field a f) = Events a \<and>
              fmlookup (Mccmods a) key = None \<and>
              (if fmlookup (Mccmods a) (field.Name f) = None then key = field.Name f
               else \<exists>idx. key = field.Name f @ decimal idx \<and>
                      (\<forall>j < idx. fmlookup (Mccmods a) (field.Name f @ decimal j) \<noteq> None)))"
    (is "_ \<longrightarrow> ?goal")
  proof (rule impI)
    assume that: "is_function f"
    define key where "key = disambiguate (Mccmods a) (field.Name f) (field.Name f)
          (fmlookup (Mccmods a) (field.Name f) \<noteq> None) 0"
    note ff = disambiguate_first_free [of "Mccmods a" "field.Name f", folded key_def]
    have upd: "Mccmods (UnmarshalJSON_field a f) =
                fmupd key \<lparr>Mccmod.Name = key, Const = Constant f, Inputs = field.Inputs f,
                            Outputs = field.Outputs f\<rparr> (Mccmods a)"
      unfolding key_def Mccmods_field using that by simp
    show ?goal
      by (intro exI [of _ key] conjI)
         (rule upd Events_function [OF that] ff [THEN conjunct1] ff [THEN conjunct2])+
  qed
  have ev: "is_event f \<longrightarrow>
      (\<exists>key. Events (UnmarshalJSON_field a f) =
                fmupd key \<lparr>Event.Name = key, Anonymous = field.Anonymous f,
                            Inputs = field.Inputs f\<rparr> (Events a) \<and>
              Mccmods (UnmarshalJSON_field a f) = Mccmods a \<and>
              fmlookup (Events a) key = None \<and>
              (if fmlookup (Events a) (field.Name f) = None then key = field.Name f
               else \<exists>idx. key = field.Name f @ decimal idx \<and>
                      (\<forall>j < idx. fmlookup (Events a) (field.Name f @ decimal j) \<noteq> None)))"
    (is "_ \<longrightarrow> ?goal")
  proof (rule impI)
    assume that: "is_event f"
    define key where "key = disambiguate (Events a) (field.Name f) (field.Name f)
          (fmlookup (Events a) (field.Name f) \<noteq> None) 0"
    note ff = disambiguate_first_free [of "Events a" "field.Name f", folded key_def]
    have upd: "Events (UnmarshalJSON_field a f) =
                fmupd key \<lparr>Event.Name = key, Anonymous = field.Anonymous f,
                            Inputs = field.Inputs f\<rparr> (Events a)"
      unfolding key_def Events_field using that by simp
    show ?goal
      by (intro exI [of _ key] conjI)
         (rule upd Mccmods_event [OF that] ff [THEN conjunct1] ff [THEN conjunct2])+
  qed
  have keys: "occurrence_key name 0 = name" "occurrence_key name (Suc k) = name @ decimal k"
    by (simp_all add: occurrence_key_def)
  have inv: "distinct (predicted_keys is_function document) \<and> i < length document \<and>
    is_function (document ! i) \<longrightarrow>
      fmlookup (Mccmods (UnmarshalJSON abi document))
        (occurrence_key (field.Name (document ! i)) (earlier is_function document i))
      = Some \<lparr>Mccmod.Name = occurrence_key (field.Name (document ! i)) (earlier is_function document i),
               Const = Constant (document ! i), Inputs = field.Inputs (document ! i),
               Outputs = field.Outputs (document ! i)\<rparr>"
    "distinct (predicted_keys is_event document) \<and> i < length document \<and>
    is_event (document ! i) \<longrightarrow>
      fmlookup (Events (UnmarshalJSON abi document))
        (occurrence_key (field.Name (document ! i)) (earlier is_event document i))
      = Some \<lparr>Event.Name = occurrence_key (field.Name (document ! i)) (earlier is_event document i),
               Anonymous = field.Anonymous (document ! i),
               Inputs = field.Inputs (document ! i)\<rparr>"
    using Mccmods_invariant [of document abi] Events_invariant [of document abi]
    by simp_all
  from inv keys UnmarshalJSON_snoc [of abi document f] fn ev show ?thesis
    by (intro conjI)
qed

text \<open>
  A document with three functions and two events, all declared \<^verbatim>\<open>foo\<close>, and a
  function declared \<^verbatim>\<open>foo7\<close>: the functions become \<^verbatim>\<open>foo\<close>, \<^verbatim>\<open>foo0\<close>,
  \<^verbatim>\<open>foo1\<close> and \<^verbatim>\<open>foo7\<close>, and the events \<^verbatim>\<open>foo\<close>, \<^verbatim>\<open>foo0\<close>, each in document
  order.
\<close>

theorem disambiguation_in_document_order_witness:
  "map (fmlookup (Mccmods (JSON
      [\<lparr>field.Type = ''function'', Name = ''foo'', Constant = False, Anonymous = False,
         Inputs = [\<lparr>Argument.Name = ''a'', Type = Bool, Indexed = False\<rparr>], Outputs = []\<rparr>,
       \<lparr>field.Type = ''event'', Name = ''foo'', Constant = False, Anonymous = False,
         Inputs = [], Outputs = []\<rparr>,
       \<lparr>field.Type = [], Name = ''foo'', Constant = True, Anonymous = False,
         Inputs = [], Outputs = []\<rparr>,
       \<lparr>field.Type = ''event'', Name = ''foo'', Constant = False, Anonymous = True,
         Inputs = [], Outputs = []\<rparr>,
       \<lparr>field.Type = ''function'', Name = ''foo'', Constant = False, Anonymous = False,
         Inputs = [], Outputs = [\<lparr>Argument.Name = ''r'', Type = Address, Indexed = False\<rparr>]\<rparr>,
       \<lparr>field.Type = ''function'', Name = ''foo7'', Constant = True, Anonymous = False,
         Inputs = [], Outputs = []\<rparr>])))
     [''foo'', ''foo0'', ''foo1'', ''foo7'']
     = [Some \<lparr>Mccmod.Name = ''foo'', Const = False,
          Inputs = [\<lparr>Argument.Name = ''a'', Type = Bool, Indexed = False\<rparr>], Outputs = []\<rparr>,
        Some \<lparr>Mccmod.Name = ''foo0'', Const = True, Inputs = [], Outputs = []\<rparr>,
        Some \<lparr>Mccmod.Name = ''foo1'', Const = False, Inputs = [],
          Outputs = [\<lparr>Argument.Name = ''r'', Type = Address, Indexed = False\<rparr>]\<rparr>,
        Some \<lparr>Mccmod.Name = ''foo7'', Const = True, Inputs = [], Outputs = []\<rparr>] \<and>
   map (fmlookup (Events (JSON
      [\<lparr>field.Type = ''function'', Name = ''foo'', Constant = False, Anonymous = False,
         Inputs = [\<lparr>Argument.Name = ''a'', Type = Bool, Indexed = False\<rparr>], Outputs = []\<rparr>,
       \<lparr>field.Type = ''event'', Name = ''foo'', Constant = False, Anonymous = False,
         Inputs = [], Outputs = []\<rparr>,
       \<lparr>field.Type = [], Name = ''foo'', Constant = True, Anonymous = False,
         Inputs = [], Outputs = []\<rparr>,
       \<lparr>field.Type = ''event'', Name = ''foo'', Constant = False, Anonymous = True,
         Inputs = [], Outputs = []\<rparr>,
       \<lparr>field.Type = ''function'', Name = ''foo'', Constant = False, Anonymous = False,
         Inputs = [], Outputs = [\<lparr>Argument.Name = ''r'', Type = Address, Indexed = False\<rparr>]\<rparr>,
       \<lparr>field.Type = ''function'', Name = ''foo7'', Constant = True, Anonymous = False,
         Inputs = [], Outputs = []\<rparr>])))
     [''foo'', ''foo0'']
     = [Some \<lparr>Event.Name = ''foo'', Anonymous = False, Inputs = []\<rparr>,
        Some \<lparr>Event.Name = ''foo0'', Anonymous = True, Inputs = []\<rparr>]"
proof -
  let ?d = "[\<lparr>field.Type = ''function'', Name = ''foo'', Constant = False, Anonymous = False,
         Inputs = [\<lparr>Argument.Name = ''a'', Type = Bool, Indexed = False\<rparr>], Outputs = []\<rparr>,
       \<lparr>field.Type = ''event'', Name = ''foo'', Constant = False, Anonymous = False,
         Inputs = [], Outputs = []\<rparr>,
       \<lparr>field.Type = [], Name = ''foo'', Constant = True, Anonymous = False,
         Inputs = [], Outputs = []\<rparr>,
       \<lparr>field.Type = ''event'', Name = ''foo'', Constant = False, Anonymous = True,
         Inputs = [], Outputs = []\<rparr>,
       \<lparr>field.Type = ''function'', Name = ''foo'', Constant = False, Anonymous = False,
         Inputs = [], Outputs = [\<lparr>Argument.Name = ''r'', Type = Address, Indexed = False\<rparr>]\<rparr>,
       \<lparr>field.Type = ''function'', Name = ''foo7'', Constant = True, Anonymous = False,
         Inputs = [], Outputs = []\<rparr>]"
  let ?z = "\<lparr>Constructor = \<lparr>Mccmod.Name = [], Const = False, Inputs = [], Outputs = []\<rparr>,
      Mccmods = fmempty, Events = fmempty\<rparr>"
  have keys: "predicted_keys is_function ?d = [''foo'', ''foo0'', ''foo1'', ''foo7'']"
    "predicted_keys is_event ?d = [''foo'', ''foo0'']"
    by (simp_all add: predicted_keys_def occurrence_key_def earlier_def names_of_def
        is_function_def is_event_def decimal.simps)
  have cf: "distinct (predicted_keys is_function ?d)" "distinct (predicted_keys is_event ?d)"
    unfolding keys by simp_all
  have kinds: "is_function (?d ! 0)" "is_event (?d ! 1)" "is_function (?d ! 2)"
    "is_event (?d ! 3)" "is_function (?d ! 4)" "is_function (?d ! 5)"
    by (simp_all add: is_function_def is_event_def)
  have key: "occurrence_key (field.Name (?d ! 0)) (earlier is_function ?d 0) = ''foo''"
    "occurrence_key (field.Name (?d ! 2)) (earlier is_function ?d 2) = ''foo0''"
    "occurrence_key (field.Name (?d ! 4)) (earlier is_function ?d 4) = ''foo1''"
    "occurrence_key (field.Name (?d ! 5)) (earlier is_function ?d 5) = ''foo7''"
    "occurrence_key (field.Name (?d ! 1)) (earlier is_event ?d 1) = ''foo''"
    "occurrence_key (field.Name (?d ! 3)) (earlier is_event ?d 3) = ''foo0''"
    by (simp_all add: occurrence_key_def earlier_def names_of_def is_function_def is_event_def
        decimal.simps)
  note t = disambiguation_in_document_order [where document = ?d and abi = ?z]
  have f0: "fmlookup (Mccmods (JSON ?d)) ''foo''
     = Some \<lparr>Mccmod.Name = ''foo'', Const = False,
         Inputs = [\<lparr>Argument.Name = ''a'', Type = Bool, Indexed = False\<rparr>], Outputs = []\<rparr>"
    using t [where i = 0, THEN conjunct1] cf kinds unfolding key JSON_def by simp
  have f1: "fmlookup (Mccmods (JSON ?d)) ''foo0''
     = Some \<lparr>Mccmod.Name = ''foo0'', Const = True, Inputs = [], Outputs = []\<rparr>"
    using t [where i = 2, THEN conjunct1] cf kinds unfolding key JSON_def by simp
  have f2: "fmlookup (Mccmods (JSON ?d)) ''foo1''
     = Some \<lparr>Mccmod.Name = ''foo1'', Const = False, Inputs = [],
         Outputs = [\<lparr>Argument.Name = ''r'', Type = Address, Indexed = False\<rparr>]\<rparr>"
    using t [where i = 4, THEN conjunct1] cf kinds unfolding key JSON_def by simp
  have f3: "fmlookup (Mccmods (JSON ?d)) ''foo7''
     = Some \<lparr>Mccmod.Name = ''foo7'', Const = True, Inputs = [], Outputs = []\<rparr>"
    using t [where i = 5, THEN conjunct1] cf kinds unfolding key JSON_def by simp
  have e0: "fmlookup (Events (JSON ?d)) ''foo''
     = Some \<lparr>Event.Name = ''foo'', Anonymous = False, Inputs = []\<rparr>"
    using t [where i = 1, THEN conjunct2, THEN conjunct1] cf kinds unfolding key JSON_def by simp
  have e1: "fmlookup (Events (JSON ?d)) ''foo0''
     = Some \<lparr>Event.Name = ''foo0'', Anonymous = True, Inputs = []\<rparr>"
    using t [where i = 3, THEN conjunct2, THEN conjunct1] cf kinds unfolding key JSON_def by simp
  from f0 f1 f2 f3 e0 e1 show ?thesis by simp
qed

section \<open>The selector of a disambiguated function\<close>





section \<open>Properties of the encoder and decoder\<close>

subsection \<open>Words: reading back what was written\<close>

lemma length_be_bytes [simp]: "length (be_bytes k n) = k"
  by (induction k arbitrary: n) auto

lemma be_nat_snoc: "be_nat (bs @ [b]) = be_nat bs * 256 + unat b"
  by (simp add: be_nat_def)

lemma unat_byte_of_nat: "unat (of_nat m :: byte) = m mod 256"
  by (simp add: unat_of_nat)

lemma be_nat_be_bytes: "be_nat (be_bytes k n) = n mod 256 ^ k"
proof (induction k arbitrary: n)
  case 0
  show ?case by (simp add: be_nat_def)
next
  case (Suc k)
  have "n mod (256 * 256 ^ k) = 256 * (n div 256 mod 256 ^ k) + n mod 256"
    by (rule mod_mult2_eq)
  with Suc show ?case
    by (simp add: be_nat_snoc unat_byte_of_nat)
qed

lemma pow256: "(256 :: nat) ^ 32 = 2 ^ 256"
proof -
  have "(256 :: nat) = 2 ^ 8" by simp
  then have "(256 :: nat) ^ 32 = (2 ^ 8) ^ 32" by simp
  also have "\<dots> = 2 ^ 256" by (simp only: power_mult [symmetric]) simp
  finally show ?thesis .
qed

lemma length_word32 [simp]: "length (word32 n) = 32"
  by (simp add: word32_def)

lemma be_nat_word32: "n < 2 ^ 256 \<Longrightarrow> be_nat (word32 n) = n"
  by (simp add: word32_def be_nat_be_bytes pow256 del: be_bytes.simps)

lemma read_word_at:
  assumes "n < 2 ^ 256"
  shows "read_word (pre @ word32 n @ post) (length pre) = Inr n"
  using assms by (simp add: read_word_def be_nat_word32)

lemma pad_mod32: "(n + (32 - n mod 32) mod 32) mod 32 = (0 :: nat)"
proof (cases "n mod 32 = 0")
  case True
  then show ?thesis by simp
next
  case False
  define q r where "q = n div 32" and "r = n mod 32"
  have n: "n = 32 * q + r" and r: "r < 32" "r \<noteq> 0"
    using False by (simp_all add: q_def r_def)
  from r have e: "(32 - r) mod 32 = 32 - r" by simp
  from r have "32 * q + r + (32 - r) = 32 * (q + 1)" by simp
  then have "(32 * q + r + (32 - r) mod 32) mod 32 = 0"
    unfolding e by (metis mod_mult_self1_is_0)
  then show ?thesis using n r_def by metis
qed

lemma length_pad32: "length (pad32 bs) mod 32 = 0"
  unfolding pad32_def by (simp only: length_append length_replicate pad_mod32)

lemma length_pad32_ge: "length bs \<le> length (pad32 bs)"
  by (simp add: pad32_def)

lemma take_pad32 [simp]: "take (length bs) (pad32 bs @ post) = bs"
  by (simp add: pad32_def)

lemma char_of_byte_of_char: "char_of (unat (of_char c :: byte)) = c"
proof -
  have "(of_char c :: nat) < 256" by (rule nat_of_char_less_256)
  then have "unat (of_nat (of_char c) :: byte) = of_char c"
    by (simp add: unat_of_nat)
  then have "unat (of_char c :: byte) = of_char c"
    by (simp add: of_nat_of_char)
  then show ?thesis by simp
qed

lemma string_of_bytes [simp]: "map (\<lambda>b. char_of (unat b)) (bytes_of_string s) = s"
  unfolding bytes_of_string_def by (induction s) (simp_all add: char_of_byte_of_char)

subsection \<open>The layout of an encoded sequence\<close>

lemma enc_args_eq:
  "enc_args hl hbuf tbuf ts vs =
     hbuf @ enc_heads (hl + length tbuf) ts vs @ tbuf @ enc_tails ts vs"
proof (induction ts arbitrary: vs hbuf tbuf)
  case Nil
  show ?case by simp
next
  case (Cons t ts)
  show ?case
  proof (cases vs)
    case Nil
    then show ?thesis by simp
  next
    case (Cons v vs')
    then show ?thesis
      by (simp add: Cons.IH add.assoc)
  qed
qed

lemma enc_args_start: "enc_args hl [] [] ts vs = enc_heads hl ts vs @ enc_tails ts vs"
  by (simp add: enc_args_eq)

lemma list_all2_replicate:
  "list_all2 P (replicate n t) vs \<longleftrightarrow> length vs = n \<and> list_all (P t) vs"
  by (auto simp: list_all2_conv_all_nth list_all_length)

lemma heads_size_Cons: "heads_size (t # ts) = head_size t + heads_size ts"
  by (simp add: heads_size_def)

lemma heads_size_replicate: "heads_size (replicate n t) = n * head_size t"
  by (induction n) (simp_all add: heads_size_def)

lemma static_sequence:
  assumes "\<And>t v. v \<in> set vs \<Longrightarrow> well_typed t v \<Longrightarrow> valid_type t \<Longrightarrow> \<not> is_dynamic t \<Longrightarrow>
      length (enc t v) = static_size t"
    and "list_all2 well_typed ts vs" and "list_all valid_type ts"
    and "list_all (\<lambda>t. \<not> is_dynamic t) ts"
  shows "length (enc_heads off ts vs) = sum_list (map static_size ts) \<and> enc_tails ts vs = []"
  using assms(2,1,3,4)
  by (induction ts vs rule: list_all2_induct) auto

lemma enc_static_length:
  "well_typed t v \<Longrightarrow> valid_type t \<Longrightarrow> \<not> is_dynamic t \<Longrightarrow> length (enc t v) = static_size t"
proof (induction v arbitrary: t)
  case (IntV i)
  then show ?case by (cases t) simp_all
next
  case (BoolV b)
  then show ?case by (cases t) simp_all
next
  case (AddressV a)
  then show ?case by (cases t) simp_all
next
  case (BytesV bs)
  then show ?case by (cases t) simp_all
next
  case (StringV s)
  then show ?case by (cases t) simp_all
next
  case (TupleV vs)
  show ?case
  proof (cases t)
    case (Tuple cs)
    with TupleV.prems have wt: "list_all2 well_typed (map snd cs) vs"
      and va: "list_all valid_type (map snd cs)"
      and st: "list_all (\<lambda>t. \<not> is_dynamic t) (map snd cs)"
      by (simp_all add: list_all_iff list_ex_iff)
    from static_sequence [OF TupleV.IH wt va st] Tuple show ?thesis
      by (simp add: enc_args_start comp_def)
  qed (use TupleV.prems in simp_all)
next
  case (ListV vs)
  show ?case
  proof (cases t)
    case (FixedArray t' n)
    with ListV.prems have len: "length vs = n" and wt: "list_all2 well_typed (replicate n t') vs"
      and va: "list_all valid_type (replicate n t')"
      by (simp_all add: list_all2_replicate list_all_iff)
    show ?thesis
    proof (cases "n = 0")
      case True
      with len FixedArray show ?thesis by simp
    next
      case False
      with ListV.prems FixedArray have "list_all (\<lambda>t. \<not> is_dynamic t) (replicate n t')"
        by (simp add: list_all_iff)
      from static_sequence [OF ListV.IH wt va this] FixedArray show ?thesis
        by (simp add: enc_args_start sum_list_replicate)
    qed
  qed (use ListV.prems in simp_all)
qed

lemma enc_heads_length:
  assumes "list_all2 well_typed ts vs" and "list_all valid_type ts"
  shows "length (enc_heads off ts vs) = heads_size ts"
  using assms
proof (induction ts vs arbitrary: off rule: list_all2_induct)
  case Nil
  show ?case by (simp add: heads_size_def)
next
  case (Cons t ts v vs)
  then show ?case
    by (simp add: heads_size_Cons head_size_def enc_static_length)
qed

subsection \<open>The encoding is a whole number of words\<close>

lemma words_sequence:
  assumes "\<And>t v. v \<in> set vs \<Longrightarrow> well_typed t v \<Longrightarrow> valid_type t \<Longrightarrow>
      length (enc t v) mod 32 = 0"
    and "list_all2 well_typed ts vs" and "list_all valid_type ts"
  shows "length (enc_heads off ts vs) mod 32 = 0 \<and> length (enc_tails ts vs) mod 32 = 0"
  using assms(2,1,3)
proof (induction ts vs arbitrary: off rule: list_all2_induct)
  case Nil
  show ?case by simp
next
  case (Cons t ts v vs)
  have v: "length (enc t v) mod 32 = 0"
    using Cons.prems Cons.hyps by simp
  have rest: "length (enc_heads off' ts vs) mod 32 = 0 \<and> length (enc_tails ts vs) mod 32 = 0"
    for off'
    using Cons.IH [of off'] Cons.prems by simp
  from v rest [of off] rest [of "off + length (enc t v)"] show ?case
    by (auto simp: mod_add_eq [symmetric] dvd_eq_mod_eq_0 [symmetric])
qed

lemma enc_length_words:
  "well_typed t v \<Longrightarrow> valid_type t \<Longrightarrow> length (enc t v) mod 32 = 0"
proof (induction v arbitrary: t)
  case (IntV i)
  then show ?case by (cases t) simp_all
next
  case (BoolV b)
  then show ?case by (cases t) simp_all
next
  case (AddressV a)
  then show ?case by (cases t) simp_all
next
  case (BytesV bs)
  then show ?case
    by (cases t) (simp_all add: length_pad32 mod_add_eq [symmetric] dvd_eq_mod_eq_0 [symmetric]
        del: length_append, simp_all add: dvd_eq_mod_eq_0 length_pad32)
next
  case (StringV s)
  then show ?case
    by (cases t) (simp_all add: dvd_eq_mod_eq_0 [symmetric] del: length_append,
        simp_all add: dvd_eq_mod_eq_0 length_pad32)
next
  case (TupleV vs)
  show ?case
  proof (cases t)
    case (Tuple cs)
    with TupleV.prems have wt: "list_all2 well_typed (map snd cs) vs"
      and va: "list_all valid_type (map snd cs)"
      by (simp_all add: list_all_iff)
    from words_sequence [OF TupleV.IH wt va] Tuple show ?thesis
      by (simp add: enc_args_start dvd_eq_mod_eq_0 [symmetric])
  qed (use TupleV.prems in simp_all)
next
  case (ListV vs)
  show ?case
  proof (cases t)
    case (FixedArray t' n)
    with ListV.prems have wt: "list_all2 well_typed (replicate n t') vs"
      and va: "list_all valid_type (replicate n t')"
      by (simp_all add: list_all2_replicate list_all_iff)
    from words_sequence [OF ListV.IH wt va] FixedArray show ?thesis
      by (simp add: enc_args_start dvd_eq_mod_eq_0 [symmetric])
  next
    case (DynamicArray t')
    with ListV.prems have wt: "list_all2 well_typed (replicate (length vs) t') vs"
      and va: "list_all valid_type (replicate (length vs) t')"
      by (simp_all add: list_all2_replicate list_all_iff)
    from words_sequence [OF ListV.IH wt va] DynamicArray show ?thesis
      by (simp add: enc_args_start dvd_eq_mod_eq_0 [symmetric])
  qed (use ListV.prems in simp_all)
qed

subsection \<open>Decoding an encoded value\<close>

text \<open>
  The heads of a sequence stand at \<open>pre\<close>, its tails after the rest of the heads and
  whatever was put in the tail before (\<open>mid\<close>); \<open>off\<close> is the distance from \<open>base\<close>
  to the first tail. Then the decoder reads the values back.
\<close>

lemma dec_sequence:
  assumes elem: "\<And>t v pre post. v \<in> set vs \<Longrightarrow> well_typed t v \<Longrightarrow> valid_type t \<Longrightarrow> sized v \<Longrightarrow>
      length (pre @ enc t v @ post) < 2 ^ 256 \<Longrightarrow>
      dec t (pre @ enc t v @ post) (length pre) = Inr v"
    and "list_all2 well_typed ts vs" and "list_all valid_type ts" and "list_all sized vs"
    and "base \<le> length pre"
    and "off = length pre - base + heads_size ts + length mid"
    and "length (pre @ enc_heads off ts vs @ mid @ enc_tails ts vs @ post) < 2 ^ 256"
  shows "dec_args ts (pre @ enc_heads off ts vs @ mid @ enc_tails ts vs @ post) base (length pre)
     = Inr vs"
  using assms(2,1,3-7)
proof (induction ts vs arbitrary: pre mid off rule: list_all2_induct)
  case Nil
  show ?case by simp
next
  case (Cons t ts v vs)
  let ?data = "pre @ enc_heads off (t # ts) (v # vs) @ mid @ enc_tails (t # ts) (v # vs) @ post"
  have wt: "well_typed t v" and va: "valid_type t" "list_all valid_type ts"
    and sz: "sized v" "list_all sized vs"
    using Cons.hyps Cons.prems by simp_all
  have elem': "\<And>t v pre post. v \<in> set vs \<Longrightarrow> well_typed t v \<Longrightarrow> valid_type t \<Longrightarrow> sized v \<Longrightarrow>
      length (pre @ enc t v @ post) < 2 ^ 256 \<Longrightarrow>
      dec t (pre @ enc t v @ post) (length pre) = Inr v"
    using Cons.prems(1) by simp
  have hlen: "length (enc_heads o' ts vs) = heads_size ts" for o'
    using Cons.hyps(2) va(2) by (rule enc_heads_length)
  show ?case
  proof (cases "is_dynamic t")
    case False
    then have slen: "length (enc t v) = static_size t"
      using wt va(1) by (simp add: enc_static_length)
    have data: "?data = pre @ enc t v @ (enc_heads off ts vs @ mid @ enc_tails ts vs @ post)"
      using False by simp
    have v: "dec t ?data (length pre) = Inr v"
      unfolding data using Cons.prems(6) False
      by (intro Cons.prems(1) wt va(1) sz(1)) simp_all
    have data': "?data = (pre @ enc t v) @ enc_heads off ts vs @ mid @ enc_tails ts vs @ post"
      using False by simp
    have "dec_args ts ?data base (length (pre @ enc t v)) = Inr vs"
      unfolding data'
    proof (rule Cons.IH [OF elem' va(2) sz(2)])
      show "base \<le> length (pre @ enc t v)" using Cons.prems(4) by simp
      show "off = length (pre @ enc t v) - base + heads_size ts + length mid"
        using Cons.prems(4,5) False by (simp add: heads_size_Cons head_size_def slen)
      show "length ((pre @ enc t v) @ enc_heads off ts vs @ mid @ enc_tails ts vs @ post) < 2 ^ 256"
        using Cons.prems(6) False by simp
    qed
    then have rest: "dec_args ts ?data base (length pre + static_size t) = Inr vs"
      by (simp add: slen)
    show ?thesis
      using False v rest by (simp del: enc_heads.simps enc_tails.simps)
  next
    case True
    let ?off' = "off + length (enc t v)"
    let ?heads = "word32 off @ enc_heads ?off' ts vs"
    have data: "?data = pre @ word32 off @ (enc_heads ?off' ts vs @ mid @ enc_tails (t # ts) (v # vs) @ post)"
      using True by simp
    have off_le: "off \<le> length ?data"
      using Cons.prems(4,5) True by (simp add: heads_size_Cons head_size_def hlen)
    with Cons.prems(6) have off_lt: "off < 2 ^ 256" by simp
    have w: "read_word ?data (length pre) = Inr off"
      unfolding data using off_lt by (rule read_word_at)
    have at: "base + off = length (pre @ ?heads @ mid)"
      using Cons.prems(4,5) True by (simp add: heads_size_Cons head_size_def hlen)
    have data2: "?data = (pre @ ?heads @ mid) @ enc t v @ (enc_tails ts vs @ post)"
      using True by simp
    have v: "dec t ?data (base + off) = Inr v"
      unfolding at unfolding data2 using Cons.prems(6) True
      by (intro Cons.prems(1) wt va(1) sz(1)) simp_all
    have data3: "?data = (pre @ word32 off) @ enc_heads ?off' ts vs @ (mid @ enc t v)
        @ enc_tails ts vs @ post"
      using True by simp
    have "dec_args ts ?data base (length (pre @ word32 off)) = Inr vs"
      unfolding data3
    proof (rule Cons.IH [OF elem' va(2) sz(2)])
      show "base \<le> length (pre @ word32 off)" using Cons.prems(4) by simp
      show "?off' = length (pre @ word32 off) - base + heads_size ts + length (mid @ enc t v)"
        using Cons.prems(4,5) True by (simp add: heads_size_Cons head_size_def)
      show "length ((pre @ word32 off) @ enc_heads ?off' ts vs @ (mid @ enc t v)
          @ enc_tails ts vs @ post) < 2 ^ 256"
        using Cons.prems(6) True by simp
    qed
    then have rest: "dec_args ts ?data base (length pre + 32) = Inr vs"
      by simp
    show ?thesis
      using True w v rest by (simp del: enc_heads.simps enc_tails.simps)
  qed
qed

subsection \<open>Integers in a word\<close>

lemma unsigned_word:
  assumes "(0 :: int) \<le> i" and "i < 2 ^ b" and "b \<le> 256"
  shows "nat (i mod 2 ^ 256) < 2 ^ 256 \<and> int (nat (i mod 2 ^ 256)) = i"
proof -
  define M :: int where "M = 2 ^ 256"
  have M: "0 < M" by (simp add: M_def)
  from assms(3) have "(2 :: int) ^ b \<le> 2 ^ 256"
    by (intro power_increasing) simp_all
  with assms(2) have lt: "i < M" by (simp add: M_def)
  with assms(1) have m: "i mod M = i" by simp
  have "nat i < nat M" using lt assms(1) by simp
  moreover have "nat M = 2 ^ 256" unfolding M_def by (simp only: nat_power_eq) simp
  ultimately have "nat i < 2 ^ 256" by (simp only:)
  with m assms(1) show ?thesis unfolding M_def [symmetric] by simp
qed

lemma signed_word:
  assumes "- (2 ^ (b - 1)) \<le> (i :: int)" and "i < 2 ^ (b - 1)" and "b \<le> 256"
  shows "nat (i mod 2 ^ 256) < 2 ^ 256 \<and>
     (if nat (i mod 2 ^ 256) < 2 ^ 255 then int (nat (i mod 2 ^ 256))
      else int (nat (i mod 2 ^ 256)) - 2 ^ 256) = i"
proof -
  define H :: int where "H = 2 ^ 255"
  define M :: int where "M = 2 ^ 256"
  have MH: "M = 2 * H" unfolding M_def H_def by (simp only: power_Suc [symmetric]) simp
  have H: "0 < H" by (simp add: H_def)
  have natM: "nat M = 2 ^ 256" unfolding M_def by (simp only: nat_power_eq) simp
  have natH: "nat H = 2 ^ 255" unfolding H_def by (simp only: nat_power_eq) simp
  from assms(3) have "(2 :: int) ^ (b - 1) \<le> 2 ^ 255"
    by (intro power_increasing) simp_all
  with assms have lo: "- H \<le> i" and hi: "i < H" by (simp_all add: H_def)
  let ?n = "nat (i mod M)"
  have r: "0 \<le> i mod M" "i mod M < M" using H MH by simp_all
  then have n_lt: "?n < nat M" by simp
  have v: "(if ?n < nat H then int ?n else int ?n - M) = i"
  proof (cases "0 \<le> i")
    case True
    with hi H MH have m: "i mod M = i" by simp
    from True hi show ?thesis by (simp add: m)
  next
    case False
    have "(i + M) mod M = i + M"
      using lo False H MH by (intro mod_pos_pos_trivial) simp_all
    then have m: "i mod M = i + M" by simp
    have a: "\<not> nat (i + M) < nat H" using lo MH H by simp
    have "0 \<le> i + M" using lo MH H by simp
    then have b: "int (nat (i + M)) = i + M" by simp
    show ?thesis by (simp only: m a if_False b add_diff_cancel)
  qed
  from n_lt v show ?thesis
    unfolding natM natH unfolding M_def by blast
qed

lemma dec_enc_unsigned:
  assumes "0 \<le> i" and "i < 2 ^ b" and "b \<le> 256"
  shows "dec (UnsignedInt b) (pre @ word32 (nat (i mod 2 ^ 256)) @ post) (length pre) = Inr (IntV i)"
proof -
  from unsigned_word [OF assms]
  have n: "nat (i mod 2 ^ 256) < 2 ^ 256" and v: "int (nat (i mod 2 ^ 256)) = i"
    by blast+
  from n have "read_word (pre @ word32 (nat (i mod 2 ^ 256)) @ post) (length pre)
      = Inr (nat (i mod 2 ^ 256))"
    by (rule read_word_at)
  then show ?thesis by (simp only: dec.simps sum.case v)
qed

lemma dec_enc_signed:
  assumes "- (2 ^ (b - 1)) \<le> i" and "i < 2 ^ (b - 1)" and "b \<le> 256"
  shows "dec (SignedInt b) (pre @ word32 (nat (i mod 2 ^ 256)) @ post) (length pre) = Inr (IntV i)"
proof -
  from signed_word [OF assms]
  have n: "nat (i mod 2 ^ 256) < 2 ^ 256"
    and v: "(if nat (i mod 2 ^ 256) < 2 ^ 255 then int (nat (i mod 2 ^ 256))
      else int (nat (i mod 2 ^ 256)) - 2 ^ 256) = i"
    by blast+
  from n have "read_word (pre @ word32 (nat (i mod 2 ^ 256)) @ post) (length pre)
      = Inr (nat (i mod 2 ^ 256))"
    by (rule read_word_at)
  then show ?thesis by (simp only: dec.simps sum.case v)
qed

lemma dec_enc_bool:
  "dec Bool (pre @ word32 (if b then 1 else 0) @ post) (length pre) = Inr (BoolV b)"
proof -
  have "(if b then 1 else 0 :: nat) < 2 ^ 256" by simp
  then have "read_word (pre @ word32 (if b then 1 else 0) @ post) (length pre)
      = Inr (if b then 1 else 0)"
    by (rule read_word_at)
  then show ?thesis by (simp only: dec.simps sum.case) simp
qed

lemma payload_after_length_word:
  "take (length bs) (drop (length pre + 32) (pre @ word32 n @ pad32 bs @ post)) = bs"
proof -
  have "drop (length pre + 32) (pre @ word32 n @ pad32 bs @ post) = pad32 bs @ post"
    by simp
  then show ?thesis by (simp only: take_pad32)
qed

subsection \<open>Decoding an encoded value: every type\<close>

lemma dec_enc:
  "well_typed t v \<Longrightarrow> valid_type t \<Longrightarrow> sized v \<Longrightarrow>
   length (pre @ enc t v @ post) < 2 ^ 256 \<Longrightarrow>
   dec t (pre @ enc t v @ post) (length pre) = Inr v"
proof (induction v arbitrary: t pre post)
  case (IntV i)
  show ?case
  proof (cases t)
    case (UnsignedInt b)
    with IntV.prems show ?thesis
      by (simp only: enc.simps) (rule dec_enc_unsigned, simp_all)
  next
    case (SignedInt b)
    with IntV.prems show ?thesis
      by (simp only: enc.simps) (rule dec_enc_signed, simp_all)
  qed (use IntV.prems in simp_all)
next
  case (BoolV b)
  show ?case
  proof (cases t)
    case Bool
    then show ?thesis by (simp only: enc.simps) (rule dec_enc_bool)
  qed (use BoolV.prems in simp_all)
next
  case (AddressV a)
  show ?case
  proof (cases t)
    case Address
    with AddressV.prems show ?thesis by simp
  qed (use AddressV.prems in simp_all)
next
  case (BytesV bs)
  show ?case
  proof (cases t)
    case (FixedBytes n)
    with BytesV.prems show ?thesis by simp
  next
    case DynamicBytes
    from BytesV.prems DynamicBytes have "length bs < 2 ^ 256"
      using length_pad32_ge [of bs] by simp
    then have w: "read_word (pre @ word32 (length bs) @ pad32 bs @ post) (length pre)
        = Inr (length bs)"
      by (rule read_word_at)
    have fit: "length pre + 32 + length bs \<le> length (pre @ word32 (length bs) @ pad32 bs @ post)"
      using length_pad32_ge [of bs] by simp
    have bytes: "take (length bs) (drop (length pre + 32) (pre @ word32 (length bs) @ pad32 bs @ post))
        = bs"
      by (rule payload_after_length_word)
    from DynamicBytes show ?thesis
      by (simp only: enc.simps dec.simps w sum.case fit if_True bytes append_assoc)
  qed (use BytesV.prems in simp_all)
next
  case (StringV s)
  show ?case
  proof (cases t)
    case String
    let ?bs = "bytes_of_string s"
    have len: "length ?bs = length s" by (simp add: bytes_of_string_def)
    from StringV.prems String have "length s < 2 ^ 256"
      using length_pad32_ge [of ?bs] by (simp add: len)
    then have w: "read_word (pre @ word32 (length s) @ pad32 ?bs @ post) (length pre)
        = Inr (length s)"
      by (rule read_word_at)
    have fit: "length pre + 32 + length s \<le> length (pre @ word32 (length s) @ pad32 ?bs @ post)"
      using length_pad32_ge [of ?bs] by (simp add: len)
    have "take (length ?bs) (drop (length pre + 32) (pre @ word32 (length s) @ pad32 ?bs @ post))
        = ?bs"
      by (rule payload_after_length_word)
    then have bytes: "map (\<lambda>b. char_of (unat b))
        (take (length s) (drop (length pre + 32) (pre @ word32 (length s) @ pad32 ?bs @ post))) = s"
      by (simp only: len string_of_bytes)
    from String show ?thesis
      by (simp only: enc.simps dec.simps w sum.case fit if_True bytes append_assoc)
  qed (use StringV.prems in simp_all)
next
  case (TupleV vs)
  show ?case
  proof (cases t)
    case (Tuple cs)
    let ?ts = "map snd cs"
    from TupleV.prems Tuple have wt: "list_all2 well_typed ?ts vs"
      and va: "list_all valid_type ?ts" and sz: "list_all sized vs"
      by (simp_all add: list_all_iff)
    have "dec_args ?ts (pre @ enc_heads (heads_size ?ts) ?ts vs @ [] @ enc_tails ?ts vs @ post)
        (length pre) (length pre) = Inr vs"
    proof (rule dec_sequence [OF TupleV.IH wt va sz])
      show "length (pre @ enc_heads (heads_size ?ts) ?ts vs @ [] @ enc_tails ?ts vs @ post) < 2 ^ 256"
        using TupleV.prems(4) Tuple by (simp add: enc_args_start)
    qed simp_all
    with Tuple show ?thesis by (simp add: enc_args_start)
  qed (use TupleV.prems in simp_all)
next
  case (ListV vs)
  show ?case
  proof (cases t)
    case (FixedArray t' n)
    let ?ts = "replicate n t'"
    from ListV.prems FixedArray have wt: "list_all2 well_typed ?ts vs"
      and va: "list_all valid_type ?ts" and sz: "list_all sized vs"
      by (simp_all add: list_all2_replicate list_all_iff)
    have "dec_args ?ts (pre @ enc_heads (heads_size ?ts) ?ts vs @ [] @ enc_tails ?ts vs @ post)
        (length pre) (length pre) = Inr vs"
    proof (rule dec_sequence [OF ListV.IH wt va sz])
      show "length (pre @ enc_heads (heads_size ?ts) ?ts vs @ [] @ enc_tails ?ts vs @ post) < 2 ^ 256"
        using ListV.prems(4) FixedArray by (simp add: enc_args_start heads_size_replicate)
    qed simp_all
    with FixedArray show ?thesis by (simp add: enc_args_start heads_size_replicate)
  next
    case (DynamicArray t')
    let ?n = "length vs"
    let ?ts = "replicate ?n t'"
    let ?data = "pre @ word32 ?n @ enc_heads (heads_size ?ts) ?ts vs @ enc_tails ?ts vs @ post"
    from ListV.prems DynamicArray have wt: "list_all2 well_typed ?ts vs"
      and va: "list_all valid_type ?ts" and sz: "list_all sized vs" and n: "?n < 2 ^ 256"
      by (simp_all add: list_all2_replicate list_all_iff)
    have e: "pre @ enc t (ListV vs) @ post = ?data"
      using DynamicArray by (simp add: enc_args_start heads_size_replicate)
    from n have w: "read_word ?data (length pre) = Inr ?n"
      by (rule read_word_at)
    have hlen: "length (enc_heads (heads_size ?ts) ?ts vs) = ?n * head_size t'"
      using enc_heads_length [OF wt va] by (simp add: heads_size_replicate)
    have fit: "length pre + 32 + ?n * head_size t' \<le> length ?data"
      by (simp add: hlen)
    have "dec_args ?ts ((pre @ word32 ?n) @ enc_heads (heads_size ?ts) ?ts vs @ [] @
        enc_tails ?ts vs @ post) (length (pre @ word32 ?n)) (length (pre @ word32 ?n)) = Inr vs"
    proof (rule dec_sequence [OF ListV.IH wt va sz])
      show "length ((pre @ word32 ?n) @ enc_heads (heads_size ?ts) ?ts vs @ [] @
          enc_tails ?ts vs @ post) < 2 ^ 256"
        using ListV.prems(4) unfolding e by simp
    qed simp_all
    then have args: "dec_args ?ts ?data (length pre + 32) (length pre + 32) = Inr vs"
      by simp
    show ?thesis
      unfolding e using DynamicArray
      by (simp only: dec.simps w sum.case fit if_True args)
  qed (use ListV.prems in simp_all)
qed

section \<open>Round trip\<close>

text \<open>
  C1, as the claim states it, fails where the encoding is empty: the encoder returns no
  bytes for the empty schema, and for a schema whose only argument is an array of length
  0, and the decoder refuses empty input before it looks at the schema.
\<close>

theorem roundtrip_empty_counterexample:
  "Arguments_Pack [] [] = Inr [] \<and>
   Arguments_Unpack [] [] = Inl DecodingError \<and>
   well_typed (FixedArray (UnsignedInt 256) 0) (ListV []) \<and>
   Arguments_Pack [\<lparr>Argument.Name = ''a'', Type = FixedArray (UnsignedInt 256) 0, Indexed = False\<rparr>]
      [ListV []] = Inr [] \<and>
   Arguments_Unpack [\<lparr>Argument.Name = ''a'', Type = FixedArray (UnsignedInt 256) 0, Indexed = False\<rparr>]
      [] = Inl DecodingError"
  by (simp add: Arguments_Pack_def Arguments_Unpack_def heads_size_def head_size_def Let_def)

text \<open>
  C1, amended: for every schema of valid types and every list of values that fit them
  (every array shorter than \<open>2 ^ 256\<close>, so that its length fits the length word), the
  encoder returns bytes, a whole number of 32-byte words; when these are not empty (and
  fewer than \<open>2 ^ 256\<close>, so that every offset fits its word), the decoder returns the
  values. When they are empty the decoder returns its error.
\<close>

theorem Unpack_Pack_roundtrip:
  assumes "list_all valid_type (map Argument.Type arguments)"
    and "list_all2 well_typed (map Argument.Type arguments) values"
    and "list_all sized values"
  shows "\<exists>data. Arguments_Pack arguments values = Inr data \<and>
     length data mod 32 = 0 \<and>
     (data \<noteq> [] \<and> length data < 2 ^ 256 \<longrightarrow> Arguments_Unpack arguments data = Inr values) \<and>
     (data = [] \<longrightarrow> Arguments_Unpack arguments data = Inl DecodingError)"
proof -
  let ?ts = "map Argument.Type arguments"
  let ?data = "enc_heads (heads_size ?ts) ?ts values @ enc_tails ?ts values"
  from assms(2) have len: "length values = length arguments"
    by (auto dest: list_all2_lengthD)
  with assms(2) have pack: "Arguments_Pack arguments values = Inr ?data"
    by (simp add: Arguments_Pack_def enc_args_start Let_def)
  have words: "length ?data mod 32 = 0"
    using words_sequence [OF enc_length_words assms(2,1), of "heads_size ?ts"]
    by (simp add: dvd_eq_mod_eq_0 [symmetric])
  have rtrip: "Arguments_Unpack arguments ?data = Inr values"
    if "?data \<noteq> []" and small: "length ?data < 2 ^ 256"
  proof -
    have "dec_args ?ts ([] @ enc_heads (heads_size ?ts) ?ts values @ [] @ enc_tails ?ts values @ [])
        0 (length ([] :: bytes)) = Inr values"
    proof (rule dec_sequence [OF dec_enc assms(2,1,3)])
      show "length ([] @ enc_heads (heads_size ?ts) ?ts values @ [] @ enc_tails ?ts values @ [])
          < 2 ^ 256"
        using small by simp
    qed simp_all
    then have "dec_args ?ts ?data 0 0 = Inr values" by simp
    with that(1) words show ?thesis
      by (simp only: Arguments_Unpack_def) simp
  qed
  have empty: "Arguments_Unpack arguments ?data = Inl DecodingError" if "?data = []"
    using that by (simp only: Arguments_Unpack_def) simp
  show ?thesis
  proof (intro exI conjI impI)
    show "Arguments_Pack arguments values = Inr ?data" by (rule pack)
    show "length ?data mod 32 = 0" by (rule words)
    show "Arguments_Unpack arguments ?data = Inr values"
      if "?data \<noteq> [] \<and> length ?data < 2 ^ 256"
      using that rtrip by blast
    show "Arguments_Unpack arguments ?data = Inl DecodingError" if "?data = []"
      using that by (rule empty)
  qed
qed

text \<open>
  The witness: a dynamic array, a boolean and a string; the array and the string go to
  the tail, and their head slots hold the offsets 96 and 192.
\<close>

theorem Unpack_Pack_roundtrip_witness:
  "\<exists>data.
     Arguments_Pack
       [\<lparr>Argument.Name = ''a'', Type = DynamicArray (UnsignedInt 8), Indexed = False\<rparr>,
        \<lparr>Argument.Name = ''b'', Type = Bool, Indexed = False\<rparr>,
        \<lparr>Argument.Name = ''c'', Type = String, Indexed = False\<rparr>]
       [ListV [IntV 1, IntV 2], BoolV True, StringV ''hi''] = Inr data \<and>
     length data = 256 \<and>
     Arguments_Unpack
       [\<lparr>Argument.Name = ''a'', Type = DynamicArray (UnsignedInt 8), Indexed = False\<rparr>,
        \<lparr>Argument.Name = ''b'', Type = Bool, Indexed = False\<rparr>,
        \<lparr>Argument.Name = ''c'', Type = String, Indexed = False\<rparr>] data
     = Inr [ListV [IntV 1, IntV 2], BoolV True, StringV ''hi'']"
proof -
  let ?args = "[\<lparr>Argument.Name = ''a'', Type = DynamicArray (UnsignedInt 8), Indexed = False\<rparr>,
        \<lparr>Argument.Name = ''b'', Type = Bool, Indexed = False\<rparr>,
        \<lparr>Argument.Name = ''c'', Type = String, Indexed = False\<rparr>]"
  let ?vals = "[ListV [IntV 1, IntV 2], BoolV True, StringV ''hi'']"
  have pre: "list_all valid_type (map Argument.Type ?args)"
    "list_all2 well_typed (map Argument.Type ?args) ?vals"
    "list_all sized ?vals"
    by simp_all
  have len: "length (enc_args (heads_size (map Argument.Type ?args)) [] []
      (map Argument.Type ?args) ?vals) = 256"
    by (simp add: heads_size_def head_size_def pad32_def bytes_of_string_def)
  from Unpack_Pack_roundtrip [OF pre] obtain data where
    d: "Arguments_Pack ?args ?vals = Inr data"
    and rt: "data \<noteq> [] \<and> length data < 2 ^ 256 \<longrightarrow> Arguments_Unpack ?args data = Inr ?vals"
    by blast
  from d have "data = enc_args (heads_size (map Argument.Type ?args)) [] []
      (map Argument.Type ?args) ?vals"
    by (simp add: Arguments_Pack_def Let_def)
  with len have l: "length data = 256" by simp
  then have "data \<noteq> []" "length data < 2 ^ 256" by auto
  with rt d l show ?thesis by blast
qed

end
